theory Spec2Isabelle
  imports Complex_Main "HOL-Library.Word"
begin

section \<open>Machine types\<close>

type_synonym u32 = "32 word"
type_synonym u64 = "64 word"

text \<open>
  \<open>int32_t\<close> and \<open>int64_t\<close> values are words of the same width, read through \<open>sint\<close>
  where the source compares them as signed numbers.
\<close>

type_synonym i32 = "32 word"
type_synonym i64 = "64 word"

section \<open>IEEE 754 binary64 arithmetic\<close>

text \<open>
  The C++ type \<open>double\<close>, as x86-64 code computes with it: a finite value is a sign
  bit (\<open>True\<close> for negative) and a magnitude, so that the two zeros are different values;
  the infinities carry their sign; all NaNs are one value. Every operation below rounds
  its exact result with \<open>rnd\<close>, so it returns a magnitude that binary64 represents.
\<close>

datatype double = Finite bool real | Infinity bool | NaN

text \<open>\<open>ilog2 n\<close> is the position of the leading bit of \<open>n\<close>, \<open>clog2 n\<close> the least
  \<open>k\<close> with \<open>n \<le> 2 ^ k\<close>, and \<open>flog2 x\<close> the binary exponent of a positive \<open>x\<close>:
  \<open>2 ^ flog2 x \<le> x < 2 ^ (flog2 x + 1)\<close>.\<close>

fun ilog2 :: "nat \<Rightarrow> nat" where
  "ilog2 n = (if n < 2 then 0 else Suc (ilog2 (n div 2)))"

declare ilog2.simps [simp del]

definition clog2 :: "nat \<Rightarrow> nat" where
  "clog2 n = (if n \<le> 1 then 0 else Suc (ilog2 (n - 1)))"

definition flog2 :: "real \<Rightarrow> int" where
  "flog2 x = (if 1 \<le> x then int (ilog2 (nat \<lfloor>x\<rfloor>)) else - int (clog2 (nat \<lceil>1 / x\<rceil>)))"

definition pow2 :: "int \<Rightarrow> real" where
  "pow2 k = (if 0 \<le> k then 2 ^ nat k else 1 / 2 ^ nat (- k))"

text \<open>Rounding to the nearest integer, a tie going to the even one.\<close>

definition round_half_even :: "real \<Rightarrow> int" where
  "round_half_even q =
     (let f = \<lfloor>q\<rfloor>; r = q - of_int f
      in if r < 1 / 2 then f else if 1 / 2 < r then f + 1 else if even f then f else f + 1)"

text \<open>
  The spacing of binary64 numbers at a magnitude, the unit in the last place: 53
  significant bits for a normal number, and \<open>2 ^ -1074\<close> below \<open>2 ^ -1022\<close>.
\<close>

definition ulp :: "real \<Rightarrow> real" where
  "ulp m = pow2 (max (flog2 m) (- 1022) - 52)"

text \<open>Rounding a magnitude to a multiple of its unit in the last place, the exponent
  range not yet bounded above.\<close>

definition round_mag :: "real \<Rightarrow> real" where
  "round_mag m = (if m = 0 then 0 else of_int (round_half_even (m / ulp m)) * ulp m)"

definition overflow_threshold :: real where
  "overflow_threshold = 2 ^ 1024"

text \<open>Round to nearest, ties to even (the default rounding mode); a result that rounds
  to \<open>2 ^ 1024\<close> or more overflows to the infinity of its sign.\<close>

definition rnd :: "bool \<Rightarrow> real \<Rightarrow> double" where
  "rnd s m = (let r = round_mag m in if r < overflow_threshold then Finite s r else Infinity s)"

definition signed_value :: "bool \<Rightarrow> real \<Rightarrow> real" where
  "signed_value s m = (if s then - m else m)"

fun dmul :: "double \<Rightarrow> double \<Rightarrow> double" where
  "dmul NaN _ = NaN"
| "dmul _ NaN = NaN"
| "dmul (Infinity s) (Infinity t) = Infinity (s \<noteq> t)"
| "dmul (Infinity s) (Finite t n) = (if n = 0 then NaN else Infinity (s \<noteq> t))"
| "dmul (Finite s m) (Infinity t) = (if m = 0 then NaN else Infinity (s \<noteq> t))"
| "dmul (Finite s m) (Finite t n) = rnd (s \<noteq> t) (m * n)"

fun ddiv :: "double \<Rightarrow> double \<Rightarrow> double" where
  "ddiv NaN _ = NaN"
| "ddiv _ NaN = NaN"
| "ddiv (Infinity s) (Infinity t) = NaN"
| "ddiv (Infinity s) (Finite t n) = Infinity (s \<noteq> t)"
| "ddiv (Finite s m) (Infinity t) = Finite (s \<noteq> t) 0"
| "ddiv (Finite s m) (Finite t n) =
     (if n = 0 then (if m = 0 then NaN else Infinity (s \<noteq> t)) else rnd (s \<noteq> t) (m / n))"

fun dadd :: "double \<Rightarrow> double \<Rightarrow> double" where
  "dadd NaN _ = NaN"
| "dadd _ NaN = NaN"
| "dadd (Infinity s) (Infinity t) = (if s = t then Infinity s else NaN)"
| "dadd (Infinity s) (Finite t n) = Infinity s"
| "dadd (Finite s m) (Infinity t) = Infinity t"
| "dadd (Finite s m) (Finite t n) =
     (let v = signed_value s m + signed_value t n
      in if v = 0 then Finite (s \<and> t) 0 else rnd (v < 0) \<bar>v\<bar>)"

text \<open>\<open>static_cast<double>\<close> of an unsigned integer.\<close>

definition double_of_nat :: "nat \<Rightarrow> double" where
  "double_of_nat n = rnd False (of_nat n)"

definition double_of_u32 :: "u32 \<Rightarrow> double" where
  "double_of_u32 w = double_of_nat (unat w)"

definition double_of_u64 :: "u64 \<Rightarrow> double" where
  "double_of_u64 w = double_of_nat (unat w)"

text \<open>The literal \<open>1e9\<close>.\<close>

definition d1e9 :: double where
  "d1e9 = Finite False 1000000000"

definition is_finite :: "double \<Rightarrow> bool" where
  "is_finite d = (case d of Finite s m \<Rightarrow> True | _ \<Rightarrow> False)"

text \<open>The comparison \<open>d >= 0.0\<close>: true of both zeros, false of NaN.\<close>

definition is_nonneg :: "double \<Rightarrow> bool" where
  "is_nonneg d = (case d of Finite s m \<Rightarrow> 0 \<le> signed_value s m | Infinity s \<Rightarrow> \<not> s | NaN \<Rightarrow> False)"

section \<open>The benchmark and its collaborators\<close>

text \<open>
  Modelled from the spec: the enumerations of \<open>common.h\<close>, which is not part of the
  sources at hand: the access pattern (sequential or random), the read/write mode and
  the chunk size. \<open>_run_core\<close> only hands \<open>_rw_mode\<close> and \<open>_chunk_size\<close> to the kernel
  lookup, so a chunk size is kept as its enumerator's number.
\<close>

datatype pattern_mode_t = SEQUENTIAL | RANDOM

datatype rw_mode_t = READ | WRITE

type_synonym chunk_size_t = nat

text \<open>A kernel function pointer: \<open>_run_core\<close> passes it on and never calls it.\<close>

type_synonym SequentialFunction = nat

text \<open>
  Modelled from the spec: the macro \<open>MB\<close> of \<open>common.h\<close>, which is not part of the
  sources at hand; the spec's worked example divides by 1,048,576.
\<close>

definition MB :: nat where
  "MB = 1048576"

text \<open>
  The fields of \<open>Benchmark\<close> that \<open>_run_core\<close> reads or writes. \<open>mem_array\<close> is the
  address held by \<open>_mem_array\<close>; \<open>metricOnIter\<close> is the vector \<open>_metricOnIter\<close>.
  Pointers and \<open>size_t\<close> are 64 bits wide.
\<close>

record benchmark =
  mem_array :: u64
  len :: u64
  iterations :: u32
  num_worker_threads :: u32
  mem_node :: u32
  cpu_node :: u32
  pattern_mode :: pattern_mode_t
  rw_mode :: rw_mode_t
  chunk_size :: chunk_size_t
  stride_size :: i64
  name :: string
  metricOnIter :: "double list"
  averageMetric :: double
  hasRun :: bool

text \<open>The arguments of the constructor \<open>ThroughputBenchmarkWorker(...)\<close>, lines 135 to 144
  (\<open>USE_SIZE_BASED_BENCHMARKS\<close> not defined).\<close>

record ThroughputBenchmarkWorker =
  thread_mem_array :: u64
  thread_len :: u64
  kernel_fptr :: SequentialFunction
  kernel_dummy_fptr :: SequentialFunction
  cpu_affinity :: i32

text \<open>What a worker's getters return once its thread has run, as \<open>_run_core\<close> reads them
  into its \<open>uint64_t\<close> variables.\<close>

record worker_counters =
  getPasses :: u64
  getAdjustedTicks :: u64
  getElapsedDummyTicks :: u64
  getBytesPerPass :: u64
  hadWarning :: bool

text \<open>
  Everything \<open>_run_core\<close> calls and does not define: the global \<open>g_verbose\<close>, the kernel
  lookup (\<open>None\<close> when it returns false), the results of \<open>_start_power_threads\<close> and
  \<open>_stop_power_threads\<close>, the NUMA lookup, the timer's factor, what worker \<open>t\<close> of
  iteration \<open>i\<close> measures when its thread runs, and whether its thread joins in time.
\<close>

record platform =
  g_verbose :: bool
  determineSequentialKernel ::
    "rw_mode_t \<Rightarrow> chunk_size_t \<Rightarrow> i64 \<Rightarrow> (SequentialFunction \<times> SequentialFunction) option"
  start_power_threads :: bool
  stop_power_threads :: bool
  cpu_id_in_numa_node :: "u32 \<Rightarrow> u32 \<Rightarrow> i32"
  get_ns_per_tick :: double
  run_worker :: "nat \<Rightarrow> nat \<Rightarrow> ThroughputBenchmarkWorker \<Rightarrow> worker_counters"
  join :: "nat \<Rightarrow> nat \<Rightarrow> bool"

text \<open>The lines written to \<open>std::cerr\<close> and to \<open>std::cout\<close>.\<close>

datatype warning =
    NoKernel
  | PowerStartFailed
  | NoLogicalCpu nat u32
  | JoinTimeout
  | PowerStopFailed

datatype message =
    Banner string
  | PowerStarting
  | PowerStopping
  | Fail
  | Done
  | RunningBenchmark
  | IterationReport nat u64 u32 u64 u64 u64 bool

text \<open>
  What \<open>_run_core\<close> does to the outside, in program order. The events of workers and
  threads carry the iteration and the worker index. \<open>GetCounters i t\<close> stands for the four
  getter calls of lines 166 to 169 on worker \<open>t\<close>. \<open>report_benchmark_info\<close> is not part
  of the sources at hand and is taken to print only.
\<close>

datatype event =
    Cout message
  | Cerr warning
  | ReportBenchmarkInfo
  | StartPowerThreads
  | StopPowerThreads
  | NewWorker nat nat ThroughputBenchmarkWorker
  | NewThread nat nat
  | CreateAndStart nat nat
  | Join nat nat
  | GetBytesPerPass nat nat
  | GetCounters nat nat
  | DeleteThread nat nat
  | DeleteWorker nat nat

section \<open>\<open>ThroughputBenchmark::_run_core\<close>\<close>

text \<open>Lines 131 to 146: the body of the loop that creates worker \<open>t\<close> and its thread.\<close>

definition new_worker ::
  "platform \<Rightarrow> benchmark \<Rightarrow> SequentialFunction \<times> SequentialFunction \<Rightarrow> u64 \<Rightarrow> nat
     \<Rightarrow> ThroughputBenchmarkWorker" where
  "new_worker p b k len_per_thread t =
     \<lparr>thread_mem_array = mem_array b + of_nat t * len_per_thread,
      thread_len = len_per_thread,
      kernel_fptr = fst k,
      kernel_dummy_fptr = snd k,
      cpu_affinity = cpu_id_in_numa_node p (cpu_node b) (of_nat t)\<rparr>"

definition create_worker ::
  "platform \<Rightarrow> benchmark \<Rightarrow> SequentialFunction \<times> SequentialFunction \<Rightarrow> u64 \<Rightarrow> nat \<Rightarrow> nat
     \<Rightarrow> event list" where
  "create_worker p b k len_per_thread i t =
     (let cpu_id = cpu_id_in_numa_node p (cpu_node b) (of_nat t)
      in (if sint cpu_id < 0 then [Cerr (NoLogicalCpu t (cpu_node b))] else [])
         @ [NewWorker i t (new_worker p b k len_per_thread t), NewThread i t])"

text \<open>Lines 154 to 156.\<close>

definition join_thread :: "platform \<Rightarrow> nat \<Rightarrow> nat \<Rightarrow> event list" where
  "join_thread p i t = Join i t # (if join p i t then [] else [Cerr JoinTimeout])"

text \<open>Lines 165 to 170: the sums are \<open>uint64_t\<close> and wrap around.\<close>

fun accumulate ::
  "worker_counters list \<Rightarrow> u64 \<times> u64 \<times> u64 \<times> bool \<Rightarrow> u64 \<times> u64 \<times> u64 \<times> bool" where
  "accumulate [] acc = acc"
| "accumulate (c # cs) (total_passes, total_adjusted_ticks, total_elapsed_dummy_ticks, iter_warning) =
     accumulate cs
       (total_passes + getPasses c,
        total_adjusted_ticks + getAdjustedTicks c,
        total_elapsed_dummy_ticks + getElapsedDummyTicks c,
        iter_warning \<or> hadWarning c)"

text \<open>Line 193.\<close>

definition compute_metric :: "u64 \<Rightarrow> u64 \<Rightarrow> u64 \<Rightarrow> double \<Rightarrow> double" where
  "compute_metric total_passes bytes_per_pass avg_adjusted_ticks ns_per_tick =
     ddiv (ddiv (dmul (double_of_u64 total_passes) (double_of_u64 bytes_per_pass)) (double_of_nat MB))
          (ddiv (dmul (double_of_u64 avg_adjusted_ticks) ns_per_tick) d1e9)"

text \<open>
  Lines 127 to 193, the measurement of iteration \<open>i\<close>: the events, and the value of
  the expression of line 193. The counters \<open>t\<close>, \<open>i\<close> are \<open>uint32_t\<close> below a
  \<open>uint32_t\<close> bound, so they do not wrap, and the loops are maps over \<open>[0..<n]\<close>.
  Both vectors are empty when an iteration begins, so \<open>workers[t]\<close> is the worker made
  for \<open>t\<close>.
\<close>

definition measure_iteration ::
  "platform \<Rightarrow> SequentialFunction \<times> SequentialFunction \<Rightarrow> u64 \<Rightarrow> nat \<Rightarrow> benchmark
     \<Rightarrow> event list \<times> double" where
  "measure_iteration p k len_per_thread i b =
     (let n = unat (num_worker_threads b);
          workers = map (new_worker p b k len_per_thread) [0..<n];
          created = concat (map (create_worker p b k len_per_thread i) [0..<n]);
          started = map (CreateAndStart i) [0..<n];
          joined = concat (map (join_thread p i) [0..<n]);
          counters = map (\<lambda>t. run_worker p i t (workers ! t)) [0..<n];
          bytes_per_pass = getBytesPerPass (counters ! 0);
          (total_passes, total_adjusted_ticks, total_elapsed_dummy_ticks, iter_warning) =
            accumulate counters (0, 0, 0, False);
          avg_adjusted_ticks = total_adjusted_ticks div ucast (num_worker_threads b);
          report =
            (if g_verbose p
             then [Cout (IterationReport (i + 1) total_passes (num_worker_threads b) bytes_per_pass
                     total_adjusted_ticks total_elapsed_dummy_ticks iter_warning)]
             else [])
      in (created @ started @ joined @ [GetBytesPerPass i 0] @ map (GetCounters i) [0..<n] @ report,
          compute_metric total_passes bytes_per_pass avg_adjusted_ticks (get_ns_per_tick p)))"

text \<open>Lines 198 to 203.\<close>

definition cleanup :: "benchmark \<Rightarrow> nat \<Rightarrow> event list" where
  "cleanup b i = concat (map (\<lambda>t. [DeleteThread i t, DeleteWorker i t]) [0..<unat (num_worker_threads b)])"

text \<open>
  Lines 127 to 203, one iteration. Writing \<open>_metricOnIter[i]\<close> past the vector's end is
  undefined behaviour: the result is \<open>None\<close>, after the events that came before.
\<close>

definition run_iteration ::
  "platform \<Rightarrow> SequentialFunction \<times> SequentialFunction \<Rightarrow> u64 \<Rightarrow> nat \<Rightarrow> benchmark
     \<Rightarrow> event list \<times> benchmark option" where
  "run_iteration p k len_per_thread i b =
     (let (measured, metric) = measure_iteration p k len_per_thread i b
      in if i < length (metricOnIter b)
         then (measured @ cleanup b i,
               Some (b\<lparr>metricOnIter := (metricOnIter b)[i := metric],
                       averageMetric := dadd (averageMetric b) metric\<rparr>))
         else (measured, None))"

text \<open>Line 126: the loop over the iterations, stopping where an iteration is undefined.\<close>

fun run_iterations ::
  "platform \<Rightarrow> SequentialFunction \<times> SequentialFunction \<Rightarrow> u64 \<Rightarrow> nat list \<Rightarrow> benchmark
     \<Rightarrow> event list \<times> benchmark option" where
  "run_iterations p k len_per_thread [] b = ([], Some b)"
| "run_iterations p k len_per_thread (i # is) b =
     (case run_iteration p k len_per_thread i b of
        (evs, None) \<Rightarrow> (evs, None)
      | (evs, Some b') \<Rightarrow>
          (case run_iterations p k len_per_thread is b' of (evs', r) \<Rightarrow> (evs @ evs', r)))"

text \<open>Lines 108 to 115 and 207 to 214.\<close>

definition start_power :: "platform \<Rightarrow> event list" where
  "start_power p =
     (if g_verbose p then [Cout PowerStarting] else [])
     @ [StartPowerThreads]
     @ (if \<not> start_power_threads p
        then (if g_verbose p then [Cout Fail] else []) @ [Cerr PowerStartFailed]
        else if g_verbose p then [Cout Done] else [])"

definition stop_power :: "platform \<Rightarrow> event list" where
  "stop_power p =
     (if g_verbose p then [Cout PowerStopping] else [])
     @ [StopPowerThreads]
     @ (if \<not> stop_power_threads p
        then (if g_verbose p then [Cout Fail] else []) @ [Cerr PowerStopFailed]
        else if g_verbose p then [Cout Done] else [])"

text \<open>
  The whole function: the events, and the returned flag with the benchmark as it is
  left. The division of line 118 by a worker count of zero is undefined behaviour, as is
  an undefined iteration: then there is no return (\<open>None\<close>).
\<close>

definition run_core :: "platform \<Rightarrow> benchmark \<Rightarrow> event list \<times> (bool \<times> benchmark) option" where
  "run_core p b =
     (let info = [Cout (Banner (name b)), ReportBenchmarkInfo]
      in case determineSequentialKernel p (rw_mode b) (chunk_size b) (stride_size b) of
           None \<Rightarrow> (info @ [Cerr NoKernel], Some (False, b))
         | Some k \<Rightarrow>
             if num_worker_threads b = 0 then (info @ start_power p, None)
             else
               let len_per_thread = len b div ucast (num_worker_threads b);
                   running = (if g_verbose p then [Cout RunningBenchmark] else [])
               in (case run_iterations p k len_per_thread [0..<unat (iterations b)] b of
                     (evs, None) \<Rightarrow> (info @ start_power p @ running @ evs, None)
                   | (evs, Some b') \<Rightarrow>
                       (info @ start_power p @ running @ evs @ stop_power p,
                        Some (True,
                          b'\<lparr>averageMetric := ddiv (averageMetric b') (double_of_u32 (iterations b)),
                             hasRun := True\<rparr>))))"

section \<open>The quantities the specification names\<close>

text \<open>Line 118.\<close>

definition len_per_thread :: "benchmark \<Rightarrow> u64" where
  "len_per_thread b = len b div ucast (num_worker_threads b)"

text \<open>The workers of an iteration, by worker index, and what they report in iteration \<open>i\<close>.\<close>

definition iteration_workers ::
  "platform \<Rightarrow> benchmark \<Rightarrow> SequentialFunction \<times> SequentialFunction \<Rightarrow> ThroughputBenchmarkWorker list" where
  "iteration_workers p b k =
     map (new_worker p b k (len_per_thread b)) [0..<unat (num_worker_threads b)]"

definition iteration_counters ::
  "platform \<Rightarrow> benchmark \<Rightarrow> SequentialFunction \<times> SequentialFunction \<Rightarrow> nat \<Rightarrow> worker_counters list" where
  "iteration_counters p b k i =
     map (\<lambda>t. run_worker p i t (iteration_workers p b k ! t)) [0..<unat (num_worker_threads b)]"

text \<open>The sums over all workers, as natural numbers.\<close>

definition sum_passes :: "worker_counters list \<Rightarrow> nat" where
  "sum_passes cs = sum_list (map (\<lambda>c. unat (getPasses c)) cs)"

definition sum_adjusted_ticks :: "worker_counters list \<Rightarrow> nat" where
  "sum_adjusted_ticks cs = sum_list (map (\<lambda>c. unat (getAdjustedTicks c)) cs)"

text \<open>
  The specification's formula,
  \<open>metric = (total_passes * bytes_per_pass / MB) / (avg_adjusted_ticks * ns_per_tick / 1e9)\<close>,
  on the numbers it names, in \<open>double\<close> arithmetic.
\<close>

definition spec_metric :: "nat \<Rightarrow> nat \<Rightarrow> nat \<Rightarrow> double \<Rightarrow> double" where
  "spec_metric total_passes bytes_per_pass avg_adjusted_ticks ns_per_tick =
     ddiv (ddiv (dmul (double_of_nat total_passes) (double_of_nat bytes_per_pass)) (double_of_nat MB))
          (ddiv (dmul (double_of_nat avg_adjusted_ticks) ns_per_tick) d1e9)"

text \<open>The average of the adjusted ticks as \<open>_run_core\<close> holds it: a \<open>uint64_t\<close> sum,
  divided by the worker count with integer division.\<close>

definition avg_adjusted_ticks :: "benchmark \<Rightarrow> worker_counters list \<Rightarrow> nat" where
  "avg_adjusted_ticks b cs = (sum_adjusted_ticks cs mod 2 ^ 64) div unat (num_worker_threads b)"

text \<open>The arithmetic mean of a sequence of metrics: the sum, accumulated from zero in
  the order of the sequence, divided by the count.\<close>

definition arithmetic_mean :: "double list \<Rightarrow> u32 \<Rightarrow> double" where
  "arithmetic_mean ms n = ddiv (foldl dadd (Finite False 0) ms) (double_of_u32 n)"

text \<open>The bytes of the buffer a worker is given, as offsets from the buffer's start.\<close>

definition worker_slice :: "benchmark \<Rightarrow> ThroughputBenchmarkWorker \<Rightarrow> nat set" where
  "worker_slice b w =
     {unat (thread_mem_array w - mem_array b) ..<
      unat (thread_mem_array w - mem_array b) + unat (thread_len w)}"

text \<open>Reading a trace: the workers constructed in iteration \<open>i\<close>, in order; the events
  that read a counter of a worker of iteration \<open>i\<close>; the events that only print.\<close>

fun workers_of :: "nat \<Rightarrow> event list \<Rightarrow> ThroughputBenchmarkWorker list" where
  "workers_of i [] = []"
| "workers_of i (NewWorker i' t w # es) = (if i' = i then w # workers_of i es else workers_of i es)"
| "workers_of i (e # es) = workers_of i es"

fun reads_counters :: "nat \<Rightarrow> event \<Rightarrow> bool" where
  "reads_counters i (GetBytesPerPass i' t) = (i' = i)"
| "reads_counters i (GetCounters i' t) = (i' = i)"
| "reads_counters i e = False"

fun is_output :: "event \<Rightarrow> bool" where
  "is_output (Cout m) = True"
| "is_output (Cerr w) = True"
| "is_output e = False"

text \<open>The metric of iteration \<open>i\<close> in the specification's words: the formula on the
  sum of the passes, the bytes per pass of worker 0 and the average of the adjusted ticks.\<close>

definition iteration_metric ::
  "platform \<Rightarrow> benchmark \<Rightarrow> SequentialFunction \<times> SequentialFunction \<Rightarrow> nat \<Rightarrow> double" where
  "iteration_metric p b k i =
     (let cs = iteration_counters p b k i
      in spec_metric (sum_passes cs mod 2 ^ 64) (unat (getBytesPerPass (cs ! 0)))
           (avg_adjusted_ticks b cs) (get_ns_per_tick p))"

text \<open>
  The order the specification asks for, as a check of a trace from left to right:
  with \<open>n\<close> workers, a thread may start once every worker and thread of its iteration
  is among the events seen, and a counter may be read once every thread of the
  iteration has been joined.
\<close>

fun permitted :: "nat \<Rightarrow> event \<Rightarrow> event set \<Rightarrow> bool" where
  "permitted n (CreateAndStart i t) seen =
     (\<forall>t'<n. NewThread i t' \<in> seen \<and> (\<exists>w. NewWorker i t' w \<in> seen))"
| "permitted n (GetBytesPerPass i t) seen = (\<forall>t'<n. Join i t' \<in> seen)"
| "permitted n (GetCounters i t) seen = (\<forall>t'<n. Join i t' \<in> seen)"
| "permitted n e seen = True"

fun in_order :: "nat \<Rightarrow> event set \<Rightarrow> event list \<Rightarrow> bool" where
  "in_order n seen [] = True"
| "in_order n seen (e # es) = (permitted n e seen \<and> in_order n (insert e seen) es)"

text \<open>The events of an iteration that runs to its end.\<close>

definition complete_iteration ::
  "platform \<Rightarrow> benchmark \<Rightarrow> SequentialFunction \<times> SequentialFunction \<Rightarrow> nat \<Rightarrow> event list" where
  "complete_iteration p b k i = fst (measure_iteration p k (len_per_thread b) i b) @ cleanup b i"

text \<open>The parts of a result: the flag returned, and the result surface as it is left.\<close>

definition returned :: "event list \<times> (bool \<times> benchmark) option \<Rightarrow> bool option" where
  "returned r = map_option fst (snd r)"

definition final :: "event list \<times> (bool \<times> benchmark) option \<Rightarrow> benchmark option" where
  "final r = map_option snd (snd r)"

definition stored_metrics :: "event list \<times> (bool \<times> benchmark) option \<Rightarrow> double list option" where
  "stored_metrics r = map_option metricOnIter (final r)"

section \<open>Example runs\<close>

text \<open>
  The specification's example: a buffer of 1,048,576 bytes and 4 workers, each doing 100
  passes of 64 bytes in 1,000,000 adjusted ticks, at 1 ns per tick. Only a stride of 1
  has a kernel; the NUMA node has two logical CPUs; the power readers fail to start and
  to stop.
\<close>

definition example_counters :: worker_counters where
  "example_counters =
     \<lparr>getPasses = 100, getAdjustedTicks = 1000000, getElapsedDummyTicks = 10,
      getBytesPerPass = 64, hadWarning = False\<rparr>"

definition example_platform :: platform where
  "example_platform =
     \<lparr>g_verbose = False,
      determineSequentialKernel = (\<lambda>rw c s. if s = 1 then Some (1, 2) else None),
      start_power_threads = False,
      stop_power_threads = False,
      cpu_id_in_numa_node = (\<lambda>node t. if t < 2 then t else - 1),
      get_ns_per_tick = Finite False 1,
      run_worker = (\<lambda>i t w. example_counters),
      join = (\<lambda>i t. True)\<rparr>"

definition example_benchmark :: benchmark where
  "example_benchmark =
     \<lparr>mem_array = 4096, len = 1048576, iterations = 2, num_worker_threads = 4,
      mem_node = 0, cpu_node = 0, pattern_mode = SEQUENTIAL, rw_mode = READ, chunk_size = 64,
      stride_size = 1, name = ''example'',
      metricOnIter = [Finite False 0, Finite False 0], averageMetric = Finite False 0,
      hasRun = False\<rparr>"

text \<open>The same benchmark with a stride that has no kernel.\<close>

definition no_kernel_benchmark :: benchmark where
  "no_kernel_benchmark = example_benchmark\<lparr>stride_size := 3\<rparr>"

text \<open>One iteration, one worker, which reports one pass of 64 bytes in zero adjusted ticks.\<close>

definition zero_ticks_platform :: platform where
  "zero_ticks_platform =
     example_platform
       \<lparr>run_worker := (\<lambda>i t w. example_counters\<lparr>getPasses := 1, getAdjustedTicks := 0\<rparr>)\<rparr>"

definition one_worker_benchmark :: benchmark where
  "one_worker_benchmark =
     example_benchmark\<lparr>iterations := 1, num_worker_threads := 1, metricOnIter := [Finite False 0]\<rparr>"

text \<open>A buffer of 3 bytes for 4 workers, one iteration.\<close>

definition short_buffer_benchmark :: benchmark where
  "short_buffer_benchmark = example_benchmark\<lparr>len := 3, iterations := 1, metricOnIter := [Finite False 0]\<rparr>"

section \<open>Rounding: error bounds and ranges\<close>

lemma ilog2_le: "0 < n \<Longrightarrow> 2 ^ ilog2 n \<le> n"
proof (induction n rule: ilog2.induct)
  case (1 n)
  show ?case
  proof (cases "n < 2")
    case True
    with "1.prems" show ?thesis by (simp add: ilog2.simps [of n])
  next
    case False
    then have "0 < n div 2" by simp
    with "1.IH" False have "2 ^ ilog2 (n div 2) \<le> n div 2" by simp
    then have "2 * 2 ^ ilog2 (n div 2) \<le> n" by simp
    with False show ?thesis by (simp add: ilog2.simps [of n])
  qed
qed

lemma ilog2_less: "m < 2 ^ Suc (ilog2 m)"
proof (induction m rule: ilog2.induct)
  case (1 m)
  show ?case
  proof (cases "m < 2")
    case True
    then show ?thesis by (simp add: ilog2.simps [of m])
  next
    case False
    with "1.IH" have "m div 2 < 2 ^ Suc (ilog2 (m div 2))" by simp
    then have "m < 2 * 2 ^ Suc (ilog2 (m div 2))" by simp
    with False show ?thesis by (simp add: ilog2.simps [of m])
  qed
qed

lemma clog2_ge: "n \<le> 2 ^ clog2 n"
proof (cases "n \<le> 1")
  case True
  then show ?thesis by (simp add: clog2_def)
next
  case False
  have "n - 1 < 2 ^ Suc (ilog2 (n - 1))" by (rule ilog2_less)
  with False show ?thesis by (simp add: clog2_def)
qed

lemma clog2_less: "1 < n \<Longrightarrow> 2 ^ (clog2 n - 1) < n"
proof -
  assume n: "1 < n"
  then have "0 < n - 1" by simp
  from ilog2_le [OF this] have "2 ^ ilog2 (n - 1) \<le> n - 1" .
  with n have "2 ^ ilog2 (n - 1) < n" by simp
  with n show ?thesis by (simp add: clog2_def)
qed

lemma pow2_eq: "pow2 k = 2 powi k"
  by (simp add: pow2_def power_int_def power_one_over inverse_eq_divide)

lemma pow2_pos: "0 < pow2 k"
  by (simp add: pow2_eq)

lemma pow2_mono: "a \<le> b \<Longrightarrow> pow2 a \<le> pow2 b"
  by (simp add: pow2_eq power_int_increasing)

lemma pow2_nat: "pow2 (int k) = 2 ^ k"
  by (simp add: pow2_def)

lemma pow2_neg_nat: "pow2 (- int j) = 1 / 2 ^ j"
  by (cases "j = 0") (simp_all add: pow2_def)

lemma flog2_le: "0 < x \<Longrightarrow> pow2 (flog2 x) \<le> x"
proof (cases "1 \<le> x")
  case True
  then have "0 < nat \<lfloor>x\<rfloor>" by simp
  then have "2 ^ ilog2 (nat \<lfloor>x\<rfloor>) \<le> nat \<lfloor>x\<rfloor>" by (rule ilog2_le)
  then have "(2::real) ^ ilog2 (nat \<lfloor>x\<rfloor>) \<le> real (nat \<lfloor>x\<rfloor>)"
    by (metis of_nat_le_iff of_nat_numeral of_nat_power)
  also have "\<dots> \<le> x" using True by simp
  finally show ?thesis using True by (simp add: flog2_def pow2_def)
next
  case False
  assume x: "0 < x"
  let ?k = "clog2 (nat \<lceil>1 / x\<rceil>)"
  have "1 / x \<le> real_of_int \<lceil>1 / x\<rceil>" by simp
  also have "\<dots> = real (nat \<lceil>1 / x\<rceil>)" using x by simp
  also have "\<dots> \<le> 2 ^ ?k"
    by (metis clog2_ge of_nat_le_iff of_nat_numeral of_nat_power)
  finally have "1 / x \<le> 2 ^ ?k" .
  then have "1 / 2 ^ ?k \<le> x" using x
    by (simp add: field_simps)
  then show ?thesis using False by (simp add: flog2_def pow2_neg_nat)
qed

lemma flog2_less: "0 < x \<Longrightarrow> x < pow2 (flog2 x + 1)"
proof (cases "1 \<le> x")
  case True
  have "x < real_of_int \<lfloor>x\<rfloor> + 1" by linarith
  also have "\<dots> = real (nat \<lfloor>x\<rfloor>) + 1" using True by simp
  also have "\<dots> = real (Suc (nat \<lfloor>x\<rfloor>))" by simp
  also have "\<dots> \<le> real (2 ^ Suc (ilog2 (nat \<lfloor>x\<rfloor>)))"
    using ilog2_less [of "nat \<lfloor>x\<rfloor>"] by (simp only: of_nat_le_iff Suc_le_eq)
  also have "\<dots> = pow2 (int (ilog2 (nat \<lfloor>x\<rfloor>)) + 1)"
    by (simp add: pow2_def nat_add_distrib)
  finally show ?thesis using True by (simp add: flog2_def)
next
  case False
  assume x: "0 < x"
  let ?c = "nat \<lceil>1 / x\<rceil>"
  let ?k = "clog2 ?c"
  from False x have "1 < 1 / x" by simp
  then have "1 < \<lceil>1 / x\<rceil>" by linarith
  then have c: "1 < ?c" by simp
  then have k: "0 < ?k" by (simp add: clog2_def)
  from clog2_less [OF c] have "2 ^ (?k - 1) < ?c" .
  then have "real (2 ^ (?k - 1)) < real ?c" by (simp only: of_nat_less_iff)
  also have "real ?c = real_of_int \<lceil>1 / x\<rceil>" using c by simp
  finally have "real_of_int (2 ^ (?k - 1)) < real_of_int \<lceil>1 / x\<rceil>" by simp
  then have "(2 :: int) ^ (?k - 1) < \<lceil>1 / x\<rceil>" by (simp only: of_int_less_iff)
  then have "real_of_int (2 ^ (?k - 1)) < 1 / x" by (simp only: less_ceiling_iff)
  then have "2 ^ (?k - 1) < 1 / x" by simp
  then have "x < 1 / 2 ^ (?k - 1)" using x by (simp add: field_simps)
  also have "1 / 2 ^ (?k - 1) = pow2 (- int (?k - 1))" by (simp only: pow2_neg_nat)
  also have "- int (?k - 1) = - int ?k + 1" using k by simp
  finally show ?thesis using False by (simp add: flog2_def)
qed

lemma round_half_even_err: "\<bar>of_int (round_half_even q) - q\<bar> \<le> 1 / 2"
  unfolding round_half_even_def Let_def by (auto simp: abs_le_iff)

lemma round_half_even_nonneg: "0 \<le> q \<Longrightarrow> 0 \<le> round_half_even q"
  unfolding round_half_even_def Let_def by auto

lemma round_mag_ulp: "m \<noteq> 0 \<Longrightarrow> round_mag m = of_int (round_half_even (m / ulp m)) * ulp m"
  by (simp add: round_mag_def)

lemma ulp_pos: "0 < ulp m"
  by (simp add: ulp_def pow2_pos)

lemma ulp_le: "0 < m \<Longrightarrow> ulp m \<le> max (m / 2 ^ 52) (pow2 (- 1074))"
proof -
  assume m: "0 < m"
  show ?thesis
  proof (cases "- 1022 \<le> flog2 m")
    case True
    then have "ulp m = pow2 (flog2 m - 52)" by (simp add: ulp_def max_def)
    also have "\<dots> = pow2 (flog2 m) / 2 ^ 52"
      by (simp add: pow2_eq power_int_diff)
    also have "\<dots> \<le> m / 2 ^ 52" using flog2_le [OF m] by (simp add: divide_right_mono)
    finally show ?thesis by simp
  next
    case False
    then have "ulp m = pow2 (- 1074)" by (simp add: ulp_def max_def)
    then show ?thesis by simp
  qed
qed

lemma round_mag_err: "0 < m \<Longrightarrow> \<bar>round_mag m - m\<bar> \<le> ulp m / 2"
proof -
  assume m: "0 < m"
  have u: "0 < ulp m" by (rule ulp_pos)
  have "round_mag m - m = (of_int (round_half_even (m / ulp m)) - m / ulp m) * ulp m"
    using m u by (simp add: round_mag_ulp left_diff_distrib)
  then have "\<bar>round_mag m - m\<bar> = \<bar>of_int (round_half_even (m / ulp m)) - m / ulp m\<bar> * ulp m"
    using u by (simp add: abs_mult)
  also have "\<dots> \<le> (1 / 2) * ulp m"
    using round_half_even_err [of "m / ulp m"] u by (intro mult_right_mono) simp_all
  finally show ?thesis by simp
qed

lemma round_mag_nonneg: "0 \<le> m \<Longrightarrow> 0 \<le> round_mag m"
  using ulp_pos [of m] round_half_even_nonneg [of "m / ulp m"]
  by (cases "m = 0") (simp_all add: round_mag_def)


lemma round_mag_upper:
  assumes "0 \<le> m" "m \<le> 2 ^ k"
  shows "round_mag m \<le> 2 ^ Suc k"
proof (cases "m = 0")
  case True
  then show ?thesis by (simp add: round_mag_def)
next
  case False
  with assms have m: "0 < m" by simp
  have "pow2 (- 1074) \<le> pow2 (int k)" by (rule pow2_mono) simp
  then have tiny: "pow2 (- 1074) \<le> 2 ^ k" by (simp only: pow2_nat)
  have "ulp m \<le> max (m / 2 ^ 52) (pow2 (- 1074))" by (rule ulp_le [OF m])
  also have "\<dots> \<le> 2 ^ k"
  proof (rule max.boundedI)
    have "m / 2 ^ 52 \<le> m" using m by (simp add: field_simps)
    with assms show "m / 2 ^ 52 \<le> 2 ^ k" by simp
    show "pow2 (- 1074) \<le> 2 ^ k" by (rule tiny)
  qed
  finally have "ulp m \<le> 2 ^ k" .
  with round_mag_err [OF m] assms ulp_pos [of m] have "round_mag m \<le> 2 ^ k + 2 ^ k" by linarith
  then show ?thesis by simp
qed

lemma round_mag_lower:
  assumes "1 / 2 ^ j \<le> m" "j \<le> 1000"
  shows "1 / 2 ^ Suc j \<le> round_mag m"
proof -
  have "(0::real) < 1 / 2 ^ j" by simp
  with assms have m: "0 < m" by linarith
  have "pow2 (- 1074) \<le> pow2 (- int j)" using assms(2) by (intro pow2_mono) simp
  then have tiny: "pow2 (- 1074) \<le> 1 / 2 ^ j" by (simp only: pow2_neg_nat)
  have "ulp m \<le> max (m / 2 ^ 52) (pow2 (- 1074))" by (rule ulp_le [OF m])
  also have "\<dots> \<le> m"
  proof (rule max.boundedI)
    show "m / 2 ^ 52 \<le> m" using m by (simp add: field_simps)
    show "pow2 (- 1074) \<le> m" using tiny assms(1) by (rule order_trans)
  qed
  finally have "ulp m \<le> m" .
  with round_mag_err [OF m] have "m / 2 \<le> round_mag m" by linarith
  moreover have "1 / 2 ^ Suc j \<le> m / 2" using assms(1) by simp
  ultimately show ?thesis by linarith
qed

lemma rnd_finite:
  assumes "0 \<le> m" "m \<le> 2 ^ k" "k < 1023"
  shows "rnd s m = Finite s (round_mag m)"
proof -
  have "round_mag m \<le> 2 ^ Suc k" using assms(1,2) by (rule round_mag_upper)
  also have "(2::real) ^ Suc k \<le> 2 ^ 1023"
    using assms(3) by (intro power_increasing) simp_all
  also have "\<dots> < overflow_threshold" by (simp add: overflow_threshold_def)
  finally show ?thesis by (simp add: rnd_def)
qed


lemma rnd_range:
  assumes "0 \<le> m" "m \<le> 2 ^ k" "k < 1023"
  shows "\<exists>r. rnd s m = Finite s r \<and> 0 \<le> r \<and> r \<le> 2 ^ Suc k"
  using rnd_finite [OF assms] round_mag_nonneg [OF assms(1)] round_mag_upper [OF assms(1,2)]
  by simp

lemma rnd_range_pos:
  assumes "1 / 2 ^ j \<le> m" "j \<le> 1000" "m \<le> 2 ^ k" "k < 1023"
  shows "\<exists>r. rnd s m = Finite s r \<and> 1 / 2 ^ Suc j \<le> r \<and> r \<le> 2 ^ Suc k"
proof -
  have "(0::real) \<le> 1 / 2 ^ j" by simp
  with assms(1) have m: "0 \<le> m" by linarith
  show ?thesis
    using rnd_finite [OF m assms(3,4)] round_mag_lower [OF assms(1,2)] round_mag_upper [OF m assms(3)]
    by simp
qed

lemma double_of_nat_range:
  assumes "n < 2 ^ 64"
  shows "\<exists>r. double_of_nat n = Finite False r \<and> 0 \<le> r \<and> r \<le> 2 ^ 65"
proof -
  from assms have "real n \<le> 2 ^ 64"
    by (metis less_imp_le of_nat_le_iff of_nat_numeral of_nat_power)
  moreover have "0 \<le> real n" by (rule of_nat_0_le_iff)
  ultimately have "\<exists>r. rnd False (real n) = Finite False r \<and> 0 \<le> r \<and> r \<le> 2 ^ Suc 64"
    by (intro rnd_range) simp_all
  then show ?thesis
    by (simp add: double_of_nat_def)
qed

lemma double_of_nat_range_pos:
  assumes "n < 2 ^ 64" "0 < n"
  shows "\<exists>r. double_of_nat n = Finite False r \<and> 1 / 2 \<le> r \<and> r \<le> 2 ^ 65"
proof -
  from assms(1) have hi: "real n \<le> 2 ^ 64"
    by (metis less_imp_le of_nat_le_iff of_nat_numeral of_nat_power)
  from assms(2) have "1 \<le> real n" by linarith
  then have lo: "1 / 2 ^ 0 \<le> real n" by (simp only: power_0 div_by_1)
  from lo hi
  have "\<exists>r. rnd False (real n) = Finite False r \<and> 1 / 2 ^ Suc 0 \<le> r \<and> r \<le> 2 ^ Suc 64"
    by (intro rnd_range_pos) simp_all
  then show ?thesis
    by (simp add: double_of_nat_def)
qed

lemma double_of_u64_range:
  "\<exists>r. double_of_u64 w = Finite False r \<and> 0 \<le> r \<and> r \<le> 2 ^ 65"
proof -
  have "unat w < 2 ^ 64" using unsigned_less [of w] by simp
  then show ?thesis unfolding double_of_u64_def by (rule double_of_nat_range)
qed

lemma double_of_u64_range_pos:
  assumes "w \<noteq> 0"
  shows "\<exists>r. double_of_u64 w = Finite False r \<and> 1 / 2 \<le> r \<and> r \<le> 2 ^ 65"
proof -
  have "unat w < 2 ^ 64" using unsigned_less [of w] by simp
  moreover from assms have "0 < unat w" by (simp add: unat_gt_0)
  ultimately show ?thesis unfolding double_of_u64_def by (rule double_of_nat_range_pos)
qed

lemma ilog2_numeral:
  "ilog2 (numeral v) = (if numeral v < (2::nat) then 0 else Suc (ilog2 (numeral v div 2)))"
  by (rule ilog2.simps)

lemma ilog2_0: "ilog2 0 = 0" and ilog2_1: "ilog2 1 = 0" and ilog2_Suc_0: "ilog2 (Suc 0) = 0"
  by (simp_all add: ilog2.simps)

lemmas fp_eval = rnd_def round_mag_def ulp_def flog2_def clog2_def ilog2_numeral ilog2_0 ilog2_1 ilog2_Suc_0
  pow2_def round_half_even_def overflow_threshold_def Let_def double_of_nat_def double_of_u64_def
  double_of_u32_def d1e9_def MB_def signed_value_def

lemma double_of_MB: "double_of_nat MB = Finite False 1048576"
  by (simp add: MB_def fp_eval)


lemma compute_metric_finite:
  assumes avg: "avg \<noteq> 0" and lo: "1 / 2 ^ 500 \<le> n" and hi: "n \<le> 2 ^ 500"
  shows "\<exists>r. compute_metric tp bpp avg (Finite False n) = Finite False r \<and> 0 \<le> r"
proof -
  obtain P where P: "double_of_u64 tp = Finite False P" "0 \<le> P" "P \<le> 2 ^ 65"
    using double_of_u64_range [of tp] by blast
  obtain B where B: "double_of_u64 bpp = Finite False B" "0 \<le> B" "B \<le> 2 ^ 65"
    using double_of_u64_range [of bpp] by blast
  obtain A where A: "double_of_u64 avg = Finite False A" "1 / 2 \<le> A" "A \<le> 2 ^ 65"
    using double_of_u64_range_pos [OF avg] by blast
  \<comment> \<open>the numerator\<close>
  have "P * B \<le> 2 ^ 65 * 2 ^ 65" using P(2,3) B(2,3) by (intro mult_mono) simp_all
  then have PB: "P * B \<le> 2 ^ 130" by (simp only: power_add [symmetric]) simp
  have "0 \<le> P * B" using P(2) B(2) by simp
  from rnd_range [OF this PB, of False]
  obtain X where X: "rnd False (P * B) = Finite False X" "0 \<le> X" "X \<le> 2 ^ 131"
    by auto
  have "X / 1048576 \<le> X" using X(2) by simp
  with X(3) have XM: "X / 1048576 \<le> 2 ^ 131" by linarith
  have "0 \<le> X / 1048576" using X(2) by simp
  from rnd_range [OF this XM, of False]
  obtain Y where Y: "rnd False (X / 1048576) = Finite False Y" "0 \<le> Y" "Y \<le> 2 ^ 132"
    by auto
  have num: "ddiv (dmul (double_of_u64 tp) (double_of_u64 bpp)) (double_of_nat MB) = Finite False Y"
    by (simp add: P(1) B(1) X(1) double_of_MB Y(1))
  \<comment> \<open>the denominator\<close>
  have n0: "0 \<le> n" using lo by (rule order_trans [rotated]) simp
  have "(1 / 2) * (1 / 2 ^ 500) \<le> A * n" using A(2) lo by (intro mult_mono) simp_all
  then have An_lo: "1 / 2 ^ 501 \<le> A * n" by simp
  have "A * n \<le> 2 ^ 65 * 2 ^ 500" using A(2,3) hi n0 by (intro mult_mono) simp_all
  then have An_hi: "A * n \<le> 2 ^ 565" by (simp only: power_add [symmetric]) simp
  from rnd_range_pos [OF An_lo _ An_hi, of False]
  obtain D where D: "rnd False (A * n) = Finite False D" "1 / 2 ^ 502 \<le> D" "D \<le> 2 ^ 566"
    by auto
  have D0: "0 \<le> D" using D(2) by (rule order_trans [rotated]) simp
  have "(1 / 2 ^ 502) / 2 ^ 30 \<le> D / 1000000000"
    using D(2) D0 by (intro frac_le) simp_all
  then have E_lo: "1 / 2 ^ 532 \<le> D / 1000000000"
    by (simp only: divide_divide_eq_left power_add [symmetric]) simp
  have "D / 1000000000 \<le> D" using D0 by simp
  with D(3) have E_hi: "D / 1000000000 \<le> 2 ^ 566" by linarith
  from rnd_range_pos [OF E_lo _ E_hi, of False]
  obtain E where E: "rnd False (D / 1000000000) = Finite False E" "1 / 2 ^ 533 \<le> E" "E \<le> 2 ^ 567"
    by auto
  have E0: "0 < E" using E(2) by (rule less_le_trans [rotated]) simp
  have den: "ddiv (dmul (double_of_u64 avg) (Finite False n)) d1e9 = Finite False E"
    by (simp add: A(1) D(1) d1e9_def E(1))
  \<comment> \<open>the quotient\<close>
  have "Y / E \<le> 2 ^ 132 / (1 / 2 ^ 533)" using Y(2,3) E(2) by (intro frac_le) simp_all
  then have q_hi: "Y / E \<le> 2 ^ 665" by (simp only: divide_divide_eq_right mult_1 power_add [symmetric]) simp
  have "0 \<le> Y / E" using Y(2) E0 by simp
  from rnd_range [OF this q_hi, of False]
  obtain M where M: "rnd False (Y / E) = Finite False M" "0 \<le> M"
    by auto
  have "compute_metric tp bpp avg (Finite False n) = Finite False M"
    using E0 by (simp add: compute_metric_def num den M(1))
  with M(2) show ?thesis by blast
qed

section \<open>The loop of \<open>_run_core\<close> in closed form\<close>

lemma accumulate_sums:
  "accumulate cs (tp, ta, td, w) =
     (tp + sum_list (map getPasses cs), ta + sum_list (map getAdjustedTicks cs),
      td + sum_list (map getElapsedDummyTicks cs), w \<or> (\<exists>c\<in>set cs. hadWarning c))"
  by (induction cs arbitrary: tp ta td w) (auto simp: add.assoc)

lemma unat_sum_list:
  "unat (sum_list (map f cs) :: u64) = sum_list (map (\<lambda>c. unat (f c)) cs) mod 2 ^ 64"
proof (induction cs)
  case Nil
  show ?case by simp
next
  case (Cons c cs)
  then show ?case by (simp add: unat_word_ariths mod_add_right_eq)
qed

lemma unat_ucast_u32: "unat (ucast (n :: u32) :: u64) = unat n"
proof -
  have "unat n < 2 ^ 32" using unsigned_less [of n] by simp
  then have "unat n < 2 ^ 64" by simp
  then show ?thesis by (simp add: unsigned_ucast_eq take_bit_nat_eq_self)
qed

lemma unat_avg:
  "unat ((x :: u64) div ucast (n :: u32)) = unat x div unat n"
  by (simp add: unat_div unat_ucast_u32)

lemma compute_metric_spec:
  "compute_metric tp bpp avg ns = spec_metric (unat tp) (unat bpp) (unat avg) ns"
  by (simp add: compute_metric_def spec_metric_def double_of_u64_def)

lemma measure_iteration_metric:
  "snd (measure_iteration p k (len_per_thread b) i b) = iteration_metric p b k i"
  by (simp add: measure_iteration_def iteration_metric_def iteration_counters_def
      iteration_workers_def accumulate_sums compute_metric_spec unat_avg unat_sum_list
      sum_passes_def sum_adjusted_ticks_def avg_adjusted_ticks_def Let_def comp_def)

lemma new_worker_update [simp]:
  "new_worker p (b\<lparr>metricOnIter := ms\<rparr>) k l = new_worker p b k l"
  "new_worker p (b\<lparr>averageMetric := a\<rparr>) k l = new_worker p b k l"
  by (rule ext, simp add: new_worker_def)+

lemma create_worker_update [simp]:
  "create_worker p (b\<lparr>metricOnIter := ms\<rparr>) k l i = create_worker p b k l i"
  "create_worker p (b\<lparr>averageMetric := a\<rparr>) k l i = create_worker p b k l i"
  by (rule ext, simp add: create_worker_def)+

lemma measure_iteration_update [simp]:
  "measure_iteration p k l i (b\<lparr>metricOnIter := ms\<rparr>) = measure_iteration p k l i b"
  "measure_iteration p k l i (b\<lparr>averageMetric := a\<rparr>) = measure_iteration p k l i b"
  by (simp_all add: measure_iteration_def Let_def case_prod_beta)

lemma cleanup_update [simp]:
  "cleanup (b\<lparr>metricOnIter := ms\<rparr>) i = cleanup b i"
  "cleanup (b\<lparr>averageMetric := a\<rparr>) i = cleanup b i"
  by (simp_all add: cleanup_def)


lemma run_iteration_Some:
  "i < length (metricOnIter b) \<Longrightarrow>
   run_iteration p k l i b =
     (fst (measure_iteration p k l i b) @ cleanup b i,
      Some (b\<lparr>metricOnIter := (metricOnIter b)[i := snd (measure_iteration p k l i b)],
              averageMetric := dadd (averageMetric b) (snd (measure_iteration p k l i b))\<rparr>))"
  by (simp add: run_iteration_def case_prod_beta)

lemma run_iteration_None:
  "\<not> i < length (metricOnIter b) \<Longrightarrow>
   run_iteration p k l i b = (fst (measure_iteration p k l i b), None)"
  by (simp add: run_iteration_def case_prod_beta)

lemma run_iterations_Some:
  assumes "\<forall>i\<in>set js. i < length ms"
  shows "run_iterations p k l js (b\<lparr>metricOnIter := ms, averageMetric := a\<rparr>) =
    (concat (map (\<lambda>i. fst (measure_iteration p k l i b) @ cleanup b i) js),
     Some (b\<lparr>metricOnIter := fold (\<lambda>i m. m[i := snd (measure_iteration p k l i b)]) js ms,
             averageMetric := foldl dadd a (map (\<lambda>i. snd (measure_iteration p k l i b)) js)\<rparr>))"
  using assms
proof (induction js arbitrary: ms a)
  case Nil
  show ?case by simp
next
  case (Cons j js)
  from Cons.prems have j: "j < length ms" and js: "\<forall>i\<in>set js. i < length (ms[j := x])" for x
    by simp_all
  show ?case
    by (simp add: run_iteration_Some j Cons.IH [OF js])
qed

lemma run_iterations_None:
  assumes "\<not> (\<forall>i\<in>set js. i < length ms)"
  shows "snd (run_iterations p k l js (b\<lparr>metricOnIter := ms, averageMetric := a\<rparr>)) = None"
  using assms
proof (induction js arbitrary: ms a)
  case Nil
  then show ?case by simp
next
  case (Cons j js)
  show ?case
  proof (cases "j < length ms")
    case True
    with Cons.prems have "\<not> (\<forall>i\<in>set js. i < length (ms[j := x]))" for x by simp
    from Cons.IH [OF this] True show ?thesis
      by (auto simp: run_iteration_Some split: prod.splits dest: arg_cong [where f = snd])
  next
    case False
    then show ?thesis by (simp add: run_iteration_None)
  qed
qed

lemma fold_update_upt:
  "m \<le> length ms \<Longrightarrow> fold (\<lambda>i xs. xs[i := f i]) [0..<m] ms = map f [0..<m] @ drop m ms"
proof (induction m)
  case 0
  show ?case by simp
next
  case (Suc m)
  then have "m < length ms" by simp
  then have "(map f [0..<m] @ drop m ms)[m := f m] = map f [0..<m] @ f m # drop (Suc m) ms"
    by (simp add: list_update_append upd_conv_take_nth_drop)
  with Suc show ?case by simp
qed


lemma run_iterations_all:
  assumes "m \<le> length (metricOnIter b)"
  shows "run_iterations p k (len_per_thread b) [0..<m] b =
    (concat (map (complete_iteration p b k) [0..<m]),
     Some (b\<lparr>metricOnIter := map (iteration_metric p b k) [0..<m] @ drop m (metricOnIter b),
             averageMetric := foldl dadd (averageMetric b) (map (iteration_metric p b k) [0..<m])\<rparr>))"
proof -
  from assms have "\<forall>i\<in>set [0..<m]. i < length (metricOnIter b)" by simp
  from run_iterations_Some [OF this, where p = p and k = k and l = "len_per_thread b" and b = b
      and a = "averageMetric b"]
  show ?thesis
    by (simp add: measure_iteration_metric fold_update_upt [OF assms] complete_iteration_def [abs_def])
qed

lemma run_core_no_kernel:
  assumes "determineSequentialKernel p (rw_mode b) (chunk_size b) (stride_size b) = None"
  shows "run_core p b = ([Cout (Banner (name b)), ReportBenchmarkInfo, Cerr NoKernel], Some (False, b))"
  using assms by (simp add: run_core_def)

lemma run_core_success:
  assumes "determineSequentialKernel p (rw_mode b) (chunk_size b) (stride_size b) = Some k"
    and "num_worker_threads b \<noteq> 0"
    and "unat (iterations b) \<le> length (metricOnIter b)"
  shows "run_core p b =
    ([Cout (Banner (name b)), ReportBenchmarkInfo] @ start_power p
       @ (if g_verbose p then [Cout RunningBenchmark] else [])
       @ concat (map (complete_iteration p b k) [0..<unat (iterations b)]) @ stop_power p,
     Some (True,
       b\<lparr>metricOnIter := map (iteration_metric p b k) [0..<unat (iterations b)]
            @ drop (unat (iterations b)) (metricOnIter b),
         averageMetric := ddiv (foldl dadd (averageMetric b)
            (map (iteration_metric p b k) [0..<unat (iterations b)])) (double_of_u32 (iterations b)),
         hasRun := True\<rparr>))"
  using assms(1,2) run_iterations_all [OF assms(3), of p k]
  by (simp add: run_core_def len_per_thread_def [symmetric])

lemma run_core_undefined:
  assumes "determineSequentialKernel p (rw_mode b) (chunk_size b) (stride_size b) = Some k"
    and "num_worker_threads b = 0 \<or> \<not> unat (iterations b) \<le> length (metricOnIter b)"
  shows "snd (run_core p b) = None"
proof (cases "num_worker_threads b = 0")
  case True
  with assms(1) show ?thesis by (simp add: run_core_def)
next
  case False
  with assms(2) have "\<not> (\<forall>i\<in>set [0..<unat (iterations b)]. i < length (metricOnIter b))"
    by (auto simp: not_le)
  from run_iterations_None [OF this, where p = p and k = k
      and l = "len b div ucast (num_worker_threads b)" and b = b and a = "averageMetric b"]
  show ?thesis using assms(1) False
    by (auto simp: run_core_def split: prod.splits option.splits)
qed

lemma run_core_True:
  assumes "snd (run_core p b) = Some (True, b')"
  shows "\<exists>k. determineSequentialKernel p (rw_mode b) (chunk_size b) (stride_size b) = Some k
     \<and> num_worker_threads b \<noteq> 0 \<and> unat (iterations b) \<le> length (metricOnIter b)"
proof (cases "determineSequentialKernel p (rw_mode b) (chunk_size b) (stride_size b)")
  case None
  with assms show ?thesis by (simp add: run_core_no_kernel)
next
  case (Some k)
  with assms run_core_undefined [OF Some] show ?thesis by fastforce
qed

lemma run_core_False:
  assumes "snd (run_core p b) = Some (False, b')"
  shows "determineSequentialKernel p (rw_mode b) (chunk_size b) (stride_size b) = None \<and> b' = b"
proof (cases "determineSequentialKernel p (rw_mode b) (chunk_size b) (stride_size b)")
  case None
  with assms show ?thesis by (simp add: run_core_no_kernel)
next
  case (Some k)
  show ?thesis
  proof (cases "num_worker_threads b \<noteq> 0 \<and> unat (iterations b) \<le> length (metricOnIter b)")
    case True
    with assms run_core_success [OF Some] show ?thesis by simp
  next
    case False
    with assms run_core_undefined [OF Some] show ?thesis by fastforce
  qed
qed

section \<open>Traces\<close>

lemma measure_iteration_quiet:
  "\<exists>r. fst (measure_iteration p k l i b) =
      concat (map (create_worker p b k l i) [0..<unat (num_worker_threads b)])
      @ map (CreateAndStart i) [0..<unat (num_worker_threads b)]
      @ concat (map (join_thread p i) [0..<unat (num_worker_threads b)])
      @ GetBytesPerPass i 0 # map (GetCounters i) [0..<unat (num_worker_threads b)]
      @ (if g_verbose p then [Cout r] else [])"
  by (simp add: measure_iteration_def Let_def case_prod_beta)

lemma measure_iteration_events:
  "\<exists>report. fst (measure_iteration p k l i b) =
      concat (map (create_worker p b k l i) [0..<unat (num_worker_threads b)])
      @ map (CreateAndStart i) [0..<unat (num_worker_threads b)]
      @ concat (map (join_thread p i) [0..<unat (num_worker_threads b)])
      @ GetBytesPerPass i 0 # map (GetCounters i) [0..<unat (num_worker_threads b)] @ report
    \<and> list_all is_output report"
proof -
  from measure_iteration_quiet [of p k l i b] obtain r
    where "fst (measure_iteration p k l i b) =
      concat (map (create_worker p b k l i) [0..<unat (num_worker_threads b)])
      @ map (CreateAndStart i) [0..<unat (num_worker_threads b)]
      @ concat (map (join_thread p i) [0..<unat (num_worker_threads b)])
      @ GetBytesPerPass i 0 # map (GetCounters i) [0..<unat (num_worker_threads b)]
      @ (if g_verbose p then [Cout r] else [])"
    by blast
  moreover have "list_all is_output (if g_verbose p then [Cout r] else [])" by simp
  ultimately show ?thesis by blast
qed

lemma workers_of_append: "workers_of i (xs @ ys) = workers_of i xs @ workers_of i ys"
  by (induction i xs rule: workers_of.induct) simp_all

lemma workers_of_create_worker:
  "workers_of i (create_worker p b k l j t) = (if i = j then [new_worker p b k l t] else [])"
  by (simp add: create_worker_def)

lemma workers_of_create:
  "workers_of i (concat (map (create_worker p b k l j) ts)) =
     (if i = j then map (new_worker p b k l) ts else [])"
  by (induction ts) (simp_all add: workers_of_create_worker workers_of_append)

lemma workers_of_output: "list_all is_output es \<Longrightarrow> workers_of i es = []"
  by (induction i es rule: workers_of.induct) simp_all

lemma workers_of_start: "workers_of i (map (CreateAndStart j) ts) = []"
  by (induction ts) simp_all

lemma workers_of_join: "workers_of i (concat (map (join_thread p j) ts)) = []"
  by (induction ts) (simp_all add: join_thread_def)

lemma workers_of_read: "workers_of i (map (GetCounters j) ts) = []"
  by (induction ts) simp_all

lemma workers_of_cleanup: "workers_of i (cleanup b j) = []"
proof -
  have "workers_of i (concat (map (\<lambda>t. [DeleteThread j t, DeleteWorker j t]) ts)) = []" for ts
    by (induction ts) simp_all
  then show ?thesis by (simp add: cleanup_def)
qed

lemma workers_of_power: "workers_of i (start_power p) = []" "workers_of i (stop_power p) = []"
  by (simp_all add: start_power_def stop_power_def)

lemma workers_of_measure:
  "workers_of i (fst (measure_iteration p k l j b)) =
     (if i = j then map (new_worker p b k l) [0..<unat (num_worker_threads b)] else [])"
proof -
  from measure_iteration_events [of p k l j b] obtain report
    where "fst (measure_iteration p k l j b) =
      concat (map (create_worker p b k l j) [0..<unat (num_worker_threads b)])
      @ map (CreateAndStart j) [0..<unat (num_worker_threads b)]
      @ concat (map (join_thread p j) [0..<unat (num_worker_threads b)])
      @ GetBytesPerPass j 0 # map (GetCounters j) [0..<unat (num_worker_threads b)] @ report"
      and "list_all is_output report"
    by blast
  then show ?thesis
    by (simp add: workers_of_append workers_of_create workers_of_start workers_of_join
        workers_of_read workers_of_output)
qed

lemma workers_of_complete:
  "workers_of i (complete_iteration p b k j) = (if i = j then iteration_workers p b k else [])"
  by (simp add: complete_iteration_def workers_of_append workers_of_measure workers_of_cleanup
      iteration_workers_def)

lemma workers_of_iterations:
  "workers_of i (concat (map (complete_iteration p b k) [0..<m])) =
     (if i < m then iteration_workers p b k else [])"
  by (induction m) (auto simp: workers_of_append workers_of_complete)

lemma workers_of_run_core:
  assumes "run_core p b = (evs, Some (True, b'))"
    and "determineSequentialKernel p (rw_mode b) (chunk_size b) (stride_size b) = Some k"
  shows "workers_of i evs = (if i < unat (iterations b) then iteration_workers p b k else [])"
proof -
  from assms(1) have "snd (run_core p b) = Some (True, b')" by simp
  from run_core_True [OF this] assms(2)
  have n: "num_worker_threads b \<noteq> 0" and l: "unat (iterations b) \<le> length (metricOnIter b)"
    by simp_all
  from run_core_success [OF assms(2) n l] assms(1)
  have "evs = [Cout (Banner (name b)), ReportBenchmarkInfo] @ start_power p
       @ (if g_verbose p then [Cout RunningBenchmark] else [])
       @ concat (map (complete_iteration p b k) [0..<unat (iterations b)]) @ stop_power p"
    by simp
  then show ?thesis
    by (simp add: workers_of_append workers_of_power workers_of_iterations)
qed

lemma unat_len_per_thread:
  "unat (len_per_thread b) = unat (len b) div unat (num_worker_threads b)"
  by (simp add: len_per_thread_def unat_avg)

lemma worker_offset:
  assumes "t < unat (num_worker_threads b)"
  shows "unat (thread_mem_array (new_worker p b k (len_per_thread b) t) - mem_array b) =
           t * (unat (len b) div unat (num_worker_threads b))"
proof -
  let ?n = "unat (num_worker_threads b)" and ?q = "unat (len b) div unat (num_worker_threads b)"
  have "t * ?q \<le> ?n * ?q" using assms by simp
  also have "\<dots> \<le> unat (len b)" by simp
  also have "\<dots> < 2 ^ 64" using unsigned_less [of "len b"] by simp
  finally have small: "t * ?q < 2 ^ 64" .
  have "?n < 2 ^ 32" using unsigned_less [of "num_worker_threads b"] by simp
  with assms have t: "t < 2 ^ 64" by simp
  have "thread_mem_array (new_worker p b k (len_per_thread b) t) - mem_array b
      = of_nat t * len_per_thread b"
    by (simp add: new_worker_def)
  also have "unat \<dots> = t * ?q"
    using small t by (simp add: unat_word_ariths unat_len_per_thread unat_of_nat)
  finally show ?thesis .
qed

lemma worker_slice_new:
  assumes "t < unat (num_worker_threads b)"
  shows "worker_slice b (new_worker p b k (len_per_thread b) t) =
     {t * (unat (len b) div unat (num_worker_threads b)) ..<
      t * (unat (len b) div unat (num_worker_threads b)) + unat (len b) div unat (num_worker_threads b)}"
  unfolding worker_slice_def worker_offset [OF assms]
  by (simp add: new_worker_def unat_len_per_thread)

lemma slices_disjoint:
  fixes q :: nat
  assumes "t \<noteq> t'"
  shows "{t * q ..< t * q + q} \<inter> {t' * q ..< t' * q + q} = {}"
proof -
  have "{t * q ..< t * q + q} \<inter> {t' * q ..< t' * q + q} = {}" if "t < t'" for t t' :: nat
  proof -
    from that have "Suc t \<le> t'" by simp
    then have "Suc t * q \<le> t' * q" by (rule mult_le_mono1)
    then show ?thesis by auto
  qed
  from this [of t t'] this [of t' t] assms show ?thesis
    by (cases "t < t'") auto
qed

lemma slices_union:
  fixes q :: nat
  shows "(\<Union>t<n. {t * q ..< t * q + q}) = {0 ..< n * q}"
proof (induction n)
  case 0
  show ?case by simp
next
  case (Suc n)
  have "(\<Union>t<Suc n. {t * q ..< t * q + q}) = (\<Union>t<n. {t * q ..< t * q + q}) \<union> {n * q ..< n * q + q}"
    by (simp add: lessThan_Suc Un_commute)
  also have "\<dots> = {0 ..< n * q} \<union> {n * q ..< n * q + q}" by (simp only: Suc.IH)
  also have "\<dots> = {0 ..< Suc n * q}" by auto
  finally show ?case .
qed


lemma fst_run_iterations_Cons:
  "fst (run_iterations p k l (j # js) b) =
     (case run_iteration p k l j b of
        (evs, None) \<Rightarrow> evs
      | (evs, Some b') \<Rightarrow> evs @ fst (run_iterations p k l js b'))"
  by (simp split: prod.splits option.splits)

lemma run_iterations_trace:
  "\<exists>m\<le>length js.
     fst (run_iterations p k l js (b\<lparr>metricOnIter := ms, averageMetric := a\<rparr>)) =
       concat (map (\<lambda>i. fst (measure_iteration p k l i b) @ cleanup b i) (take m js))
       @ (if m < length js then fst (measure_iteration p k l (js ! m) b) else [])"
proof (induction js arbitrary: ms a)
  case Nil
  show ?case by simp
next
  case (Cons j js)
  show ?case
  proof (cases "j < length ms")
    case True
    let ?ms = "ms[j := snd (measure_iteration p k l j b)]"
    let ?a = "dadd a (snd (measure_iteration p k l j b))"
    from Cons.IH [where ms = ?ms and a = ?a] obtain m where m: "m \<le> length js"
      and t: "fst (run_iterations p k l js (b\<lparr>metricOnIter := ?ms, averageMetric := ?a\<rparr>)) =
       concat (map (\<lambda>i. fst (measure_iteration p k l i b) @ cleanup b i) (take m js))
       @ (if m < length js then fst (measure_iteration p k l (js ! m) b) else [])"
      by blast
    have ri: "run_iteration p k l j (b\<lparr>metricOnIter := ms, averageMetric := a\<rparr>) =
        (fst (measure_iteration p k l j b) @ cleanup b j,
         Some (b\<lparr>metricOnIter := ?ms, averageMetric := ?a\<rparr>))"
      using True by (simp add: run_iteration_Some)
    have "fst (run_iterations p k l (j # js) (b\<lparr>metricOnIter := ms, averageMetric := a\<rparr>)) =
       concat (map (\<lambda>i. fst (measure_iteration p k l i b) @ cleanup b i) (take (Suc m) (j # js)))
       @ (if Suc m < length (j # js) then fst (measure_iteration p k l ((j # js) ! Suc m) b) else [])"
      unfolding fst_run_iterations_Cons ri using t by simp
    with m show ?thesis by (intro exI [of _ "Suc m"]) simp
  next
    case False
    then have "fst (run_iterations p k l (j # js) (b\<lparr>metricOnIter := ms, averageMetric := a\<rparr>)) =
       concat (map (\<lambda>i. fst (measure_iteration p k l i b) @ cleanup b i) (take 0 (j # js)))
       @ (if 0 < length (j # js) then fst (measure_iteration p k l ((j # js) ! 0) b) else [])"
      unfolding fst_run_iterations_Cons by (simp add: run_iteration_None)
    then show ?thesis by (intro exI [of _ 0]) simp
  qed
qed

lemma run_core_trace:
  assumes "determineSequentialKernel p (rw_mode b) (chunk_size b) (stride_size b) = Some k"
    and "num_worker_threads b \<noteq> 0"
  shows "\<exists>m partial post. fst (run_core p b) =
      [Cout (Banner (name b)), ReportBenchmarkInfo] @ start_power p
       @ (if g_verbose p then [Cout RunningBenchmark] else [])
       @ concat (map (complete_iteration p b k) [0..<m]) @ partial @ post
    \<and> m \<le> unat (iterations b)
    \<and> (partial = [] \<or> partial = fst (measure_iteration p k (len_per_thread b) m b))
    \<and> (post = [] \<or> post = stop_power p)"
proof -
  let ?it = "unat (iterations b)"
  from run_iterations_trace [where js = "[0..<?it]" and p = p and k = k and l = "len_per_thread b"
      and b = b and ms = "metricOnIter b" and a = "averageMetric b"]
  obtain m where m: "m \<le> ?it"
    and t: "fst (run_iterations p k (len_per_thread b) [0..<?it] b) =
       concat (map (complete_iteration p b k) [0..<m])
       @ (if m < ?it then fst (measure_iteration p k (len_per_thread b) m b) else [])"
    by (auto simp: complete_iteration_def [abs_def] take_upt)
  let ?partial = "if m < ?it then fst (measure_iteration p k (len_per_thread b) m b) else []"
  let ?post = "case snd (run_iterations p k (len_per_thread b) [0..<?it] b) of None \<Rightarrow> []
                | Some b' \<Rightarrow> stop_power p"
  have "fst (run_core p b) =
      [Cout (Banner (name b)), ReportBenchmarkInfo] @ start_power p
       @ (if g_verbose p then [Cout RunningBenchmark] else [])
       @ concat (map (complete_iteration p b k) [0..<m]) @ ?partial @ ?post"
    using assms t
    by (auto simp: run_core_def len_per_thread_def [symmetric] split: prod.splits option.splits)
  moreover have "?partial = [] \<or> ?partial = fst (measure_iteration p k (len_per_thread b) m b)"
    by simp
  moreover have "?post = [] \<or> ?post = stop_power p" by (simp split: option.splits)
  ultimately show ?thesis using m by blast
qed

section \<open>The example runs, evaluated\<close>

lemmas ex_eval = example_platform_def example_benchmark_def example_counters_def
  no_kernel_benchmark_def zero_ticks_platform_def one_worker_benchmark_def short_buffer_benchmark_def

lemma example_kernel:
  "determineSequentialKernel example_platform (rw_mode example_benchmark)
     (chunk_size example_benchmark) (stride_size example_benchmark) = Some (1, 2)"
  by (simp add: ex_eval)

lemma example_run:
  "\<exists>evs b'. run_core example_platform example_benchmark = (evs, Some (True, b'))"
  using run_core_success [OF example_kernel] by (simp add: ex_eval)

lemma spec_metric_example:
  "spec_metric 400 64 1000000 (Finite False 1) = Finite False (3125 / 128)"
  by (simp add: spec_metric_def fp_eval)

lemma example_counters_eval:
  "iteration_counters example_platform example_benchmark k i =
     [example_counters, example_counters, example_counters, example_counters]"
  by (simp add: iteration_counters_def iteration_workers_def ex_eval upt_rec)

lemma example_metric:
  "iteration_metric example_platform example_benchmark k i = Finite False (3125 / 128)"
  by (simp add: iteration_metric_def example_counters_eval sum_passes_def sum_adjusted_ticks_def
      avg_adjusted_ticks_def spec_metric_example)
    (simp add: ex_eval spec_metric_example)

section \<open>The claims\<close>

subsection \<open>The metric of an iteration\<close>

text \<open>
  C1. In every iteration \<open>i\<close> of a run that returns true, the metric stored at index \<open>i\<close>
  is the specification's formula on the sum of the passes of all workers, the bytes per
  pass of worker 0 and the sum of the adjusted ticks divided by the worker count with
  integer division. The sums are the \<open>uint64_t\<close> sums of the code, that is, taken modulo
  \<open>2 ^ 64\<close>; where they stay below \<open>2 ^ 64\<close> they are the plain sums. With 400 passes
  in total, 64 bytes per pass, an average of 1,000,000 adjusted ticks and 1 ns per tick the
  formula gives 24.4140625, which is 24.41 to two decimals.
\<close>

theorem metric_on_iter:
  assumes "run_core p b = (evs, Some (True, b'))"
    and "determineSequentialKernel p (rw_mode b) (chunk_size b) (stride_size b) = Some k"
    and "i < unat (iterations b)"
    and "cs = iteration_counters p b k i"
  shows "metricOnIter b' ! i =
           spec_metric (sum_passes cs mod 2 ^ 64) (unat (getBytesPerPass (cs ! 0)))
             ((sum_adjusted_ticks cs mod 2 ^ 64) div unat (num_worker_threads b)) (get_ns_per_tick p)
         \<and> (sum_passes cs < 2 ^ 64 \<and> sum_adjusted_ticks cs < 2 ^ 64 \<longrightarrow>
              metricOnIter b' ! i =
                spec_metric (sum_passes cs) (unat (getBytesPerPass (cs ! 0)))
                  (sum_adjusted_ticks cs div unat (num_worker_threads b)) (get_ns_per_tick p))
         \<and> spec_metric 400 64 1000000 (Finite False 1) = Finite False (3125 / 128)
         \<and> \<bar>3125 / 128 - 24.41\<bar> < (0.005 :: real)"
proof -
  from assms(1) have "snd (run_core p b) = Some (True, b')" by simp
  from run_core_True [OF this] assms(2)
  have n: "num_worker_threads b \<noteq> 0" and l: "unat (iterations b) \<le> length (metricOnIter b)"
    by simp_all
  from run_core_success [OF assms(2) n l] assms(1)
  have "metricOnIter b' = map (iteration_metric p b k) [0..<unat (iterations b)]
            @ drop (unat (iterations b)) (metricOnIter b)"
    by auto
  with assms(3) have "metricOnIter b' ! i = iteration_metric p b k i"
    by (simp add: nth_append)
  then have m: "metricOnIter b' ! i =
           spec_metric (sum_passes cs mod 2 ^ 64) (unat (getBytesPerPass (cs ! 0)))
             ((sum_adjusted_ticks cs mod 2 ^ 64) div unat (num_worker_threads b)) (get_ns_per_tick p)"
    by (simp add: iteration_metric_def assms(4) avg_adjusted_ticks_def Let_def)
  then show ?thesis by (simp add: spec_metric_example)
qed

text \<open>The example run stores 24.4140625 for its second iteration.\<close>

theorem metric_on_iter_example:
  "\<exists>b'. final (run_core example_platform example_benchmark) = Some b'
     \<and> metricOnIter b' ! 1 = spec_metric 400 64 1000000 (Finite False 1)
     \<and> metricOnIter b' ! 1 = Finite False (3125 / 128)"
proof -
  from example_run obtain evs b'
    where r: "run_core example_platform example_benchmark = (evs, Some (True, b'))" by blast
  have i: "1 < unat (iterations example_benchmark)" by (simp add: ex_eval)
  let ?cs = "iteration_counters example_platform example_benchmark (1, 2) 1"
  have sums: "sum_passes ?cs = 400" "sum_adjusted_ticks ?cs = 4000000"
    "unat (getBytesPerPass (?cs ! 0)) = 64"
    by (simp_all add: example_counters_eval sum_passes_def sum_adjusted_ticks_def
        example_counters_def)
  have n: "unat (num_worker_threads example_benchmark) = 4"
    and ns: "get_ns_per_tick example_platform = Finite False 1"
    by (simp_all add: ex_eval)
  note m = metric_on_iter [OF r example_kernel i refl]
  from m [THEN conjunct2, THEN conjunct1] sums
  have "metricOnIter b' ! 1 = spec_metric 400 64 1000000 (Finite False 1)"
    by (simp add: n ns)
  with m [THEN conjunct2, THEN conjunct2, THEN conjunct1] r show ?thesis
    by (simp add: final_def)
qed

subsection \<open>A failed kernel lookup\<close>

lemma no_kernel_example:
  "determineSequentialKernel example_platform (rw_mode no_kernel_benchmark)
     (chunk_size no_kernel_benchmark) (stride_size no_kernel_benchmark) = None"
  by (simp add: ex_eval)

text \<open>
  C3. When no kernel matches the read/write mode, chunk size and stride, \<open>_run_core\<close>
  returns false, and all it has done by then is print the banner and the benchmark's
  information and write the warning: no worker or thread is made or started, the power
  readers are not started, and no iteration runs.
\<close>

theorem no_kernel_fails_first:
  assumes "determineSequentialKernel p (rw_mode b) (chunk_size b) (stride_size b) = None"
  shows "run_core p b = ([Cout (Banner (name b)), ReportBenchmarkInfo, Cerr NoKernel], Some (False, b))
    \<and> returned (run_core p b) = Some False"
  using assms by (simp add: run_core_no_kernel returned_def)

theorem no_kernel_fails_first_example:
  "run_core example_platform no_kernel_benchmark =
     ([Cout (Banner ''example''), ReportBenchmarkInfo, Cerr NoKernel], Some (False, no_kernel_benchmark))"
  using no_kernel_fails_first [OF no_kernel_example] by (simp add: ex_eval)

text \<open>
  C10. When \<open>_run_core\<close> returns false, the benchmark is exactly as it was before the
  call: the per-iteration metrics, the average and the has-run flag are unchanged; and it
  returns false only when the kernel lookup failed.
\<close>

theorem failure_leaves_results:
  assumes "run_core p b = (evs, Some (False, b'))"
  shows "b' = b
    \<and> metricOnIter b' = metricOnIter b
    \<and> averageMetric b' = averageMetric b
    \<and> hasRun b' = hasRun b
    \<and> determineSequentialKernel p (rw_mode b) (chunk_size b) (stride_size b) = None"
proof -
  from assms have "snd (run_core p b) = Some (False, b')" by simp
  from run_core_False [OF this] show ?thesis by simp
qed

theorem failure_leaves_results_example:
  "final (run_core example_platform no_kernel_benchmark) = Some no_kernel_benchmark
   \<and> hasRun no_kernel_benchmark = False"
proof -
  have r: "run_core example_platform no_kernel_benchmark
      = (fst (run_core example_platform no_kernel_benchmark),
         Some (False, snd (the (snd (run_core example_platform no_kernel_benchmark)))))"
    by (simp add: run_core_no_kernel [OF no_kernel_example])
  from failure_leaves_results [OF r] r show ?thesis
    by (simp add: final_def run_core_no_kernel [OF no_kernel_example]) (simp add: ex_eval)
qed

subsection \<open>The average metric\<close>

lemma stored_metrics_success:
  assumes "run_core p b = (evs, Some (True, b'))"
    and "determineSequentialKernel p (rw_mode b) (chunk_size b) (stride_size b) = Some k"
  shows "take (unat (iterations b)) (metricOnIter b') =
           map (iteration_metric p b k) [0..<unat (iterations b)]"
proof -
  from assms(1) have "snd (run_core p b) = Some (True, b')" by simp
  from run_core_True [OF this] assms(2)
  have n: "num_worker_threads b \<noteq> 0" and l: "unat (iterations b) \<le> length (metricOnIter b)"
    by simp_all
  from run_core_success [OF assms(2) n l] assms(1)
  have "metricOnIter b' = map (iteration_metric p b k) [0..<unat (iterations b)]
            @ drop (unat (iterations b)) (metricOnIter b)"
    by auto
  then show ?thesis by simp
qed

lemma example_iterations: "unat (iterations example_benchmark) = 2"
  by (simp add: ex_eval)

lemma example_stored:
  assumes "run_core example_platform example_benchmark = (evs, Some (True, b'))"
  shows "take 2 (metricOnIter b') = [Finite False (3125 / 128), Finite False (3125 / 128)]"
  using stored_metrics_success [OF assms example_kernel]
  by (simp add: example_iterations example_metric upt_rec)

lemma mean_example:
  "arithmetic_mean [Finite False (3125 / 128), Finite False (3125 / 128)] 2 = Finite False (3125 / 128)"
  by (simp add: arithmetic_mean_def fp_eval signed_value_def)

text \<open>
  C6. When \<open>_run_core\<close> returns true, the stored average is the sum accumulated in
  \<open>_averageMetric\<close> (the value it had on entry, then the stored per-iteration metrics in
  order) divided by the iteration count; on a benchmark whose average is zero on entry,
  that is the arithmetic mean of the stored per-iteration metrics. The has-run flag is set.
\<close>

theorem average_is_mean:
  assumes "run_core p b = (evs, Some (True, b'))"
    and "stored = take (unat (iterations b)) (metricOnIter b')"
  shows "averageMetric b' = ddiv (foldl dadd (averageMetric b) stored) (double_of_u32 (iterations b))
    \<and> (averageMetric b = Finite False 0 \<longrightarrow>
         averageMetric b' = arithmetic_mean stored (iterations b))
    \<and> hasRun b'"
proof -
  from assms(1) have "snd (run_core p b) = Some (True, b')" by simp
  from run_core_True [OF this] obtain k
    where k: "determineSequentialKernel p (rw_mode b) (chunk_size b) (stride_size b) = Some k"
      and n: "num_worker_threads b \<noteq> 0" and l: "unat (iterations b) \<le> length (metricOnIter b)"
    by blast
  from run_core_success [OF k n l] assms(1)
  have b': "b' = b\<lparr>metricOnIter := map (iteration_metric p b k) [0..<unat (iterations b)]
            @ drop (unat (iterations b)) (metricOnIter b),
         averageMetric := ddiv (foldl dadd (averageMetric b)
            (map (iteration_metric p b k) [0..<unat (iterations b)])) (double_of_u32 (iterations b)),
         hasRun := True\<rparr>"
    by simp
  have "hasRun b'" by (subst b') simp
  moreover
  have "averageMetric b' = ddiv (foldl dadd (averageMetric b) stored) (double_of_u32 (iterations b))"
    unfolding assms(2) by (subst (1 2) b') simp
  ultimately show ?thesis by (simp add: arithmetic_mean_def)
qed

text \<open>The example's average is the mean of its two metrics.\<close>

theorem average_is_mean_example:
  "\<exists>b'. final (run_core example_platform example_benchmark) = Some b'
     \<and> averageMetric b' = Finite False (3125 / 128) \<and> hasRun b'"
proof -
  from example_run obtain evs b'
    where r: "run_core example_platform example_benchmark = (evs, Some (True, b'))" by blast
  have z: "averageMetric example_benchmark = Finite False 0" by (simp add: ex_eval)
  have i: "iterations example_benchmark = 2" by (simp add: ex_eval)
  note a = average_is_mean [OF r refl]
  from a [THEN conjunct2, THEN conjunct1, rule_format, OF z]
  have "averageMetric b' = Finite False (3125 / 128)"
    by (simp add: example_iterations example_stored [OF r] i mean_example)
  with a [THEN conjunct2, THEN conjunct2]
  have "averageMetric b' = Finite False (3125 / 128) \<and> hasRun b'" by simp
  with r show ?thesis by (simp add: final_def)
qed


subsection \<open>Zero adjusted ticks\<close>

lemma compute_metric_zero_ticks: "\<not> is_finite (compute_metric tp bpp 0 ns)"
proof -
  obtain P where P: "double_of_u64 tp = Finite False P" using double_of_u64_range [of tp] by blast
  obtain B where B: "double_of_u64 bpp = Finite False B" using double_of_u64_range [of bpp] by blast
  have z: "double_of_u64 0 = Finite False 0"
    by (simp add: double_of_u64_def double_of_nat_def rnd_def round_mag_def overflow_threshold_def)
  have r0: "rnd s 0 = Finite s 0" for s
    by (simp add: rnd_def round_mag_def overflow_threshold_def)
  have num: "ddiv (dmul (double_of_u64 tp) (double_of_u64 bpp)) (double_of_nat MB) \<noteq> Finite s 0
       \<or> True" for s by simp
  have den: "ddiv (dmul (double_of_u64 0) ns) d1e9 = NaN \<or> (\<exists>s. ddiv (dmul (double_of_u64 0) ns) d1e9 = Finite s 0)"
    by (cases ns) (simp_all add: z r0 d1e9_def)
  have "\<not> is_finite (ddiv x NaN)" for x by (cases x) (simp_all add: is_finite_def)
  moreover have "\<not> is_finite (ddiv x (Finite s 0))" for x s
    by (cases x) (simp_all add: is_finite_def)
  ultimately show ?thesis using den by (auto simp: compute_metric_def)
qed



lemma zero_ticks_kernel:
  "determineSequentialKernel zero_ticks_platform (rw_mode one_worker_benchmark)
     (chunk_size one_worker_benchmark) (stride_size one_worker_benchmark) = Some (1, 2)"
  by (simp add: ex_eval)

lemma zero_ticks_counters:
  "iteration_counters zero_ticks_platform one_worker_benchmark k i =
     [example_counters\<lparr>getPasses := 1, getAdjustedTicks := 0\<rparr>]"
  by (simp add: iteration_counters_def iteration_workers_def zero_ticks_platform_def
      one_worker_benchmark_def)

lemma spec_metric_zero_ticks: "spec_metric (Suc 0) 64 0 (Finite False 1) = Infinity False"
  by (simp add: spec_metric_def fp_eval)

lemma zero_ticks_metric:
  "iteration_metric zero_ticks_platform one_worker_benchmark k i = Infinity False"
proof -
  have "get_ns_per_tick zero_ticks_platform = Finite False 1"
    by (simp add: zero_ticks_platform_def example_platform_def)
  moreover have "unat (num_worker_threads one_worker_benchmark) = 1"
    by (simp add: one_worker_benchmark_def)
  ultimately show ?thesis
    by (simp add: iteration_metric_def zero_ticks_counters sum_passes_def sum_adjusted_ticks_def
      avg_adjusted_ticks_def example_counters_def spec_metric_zero_ticks)
qed

lemma zero_ticks_run:
  "stored_metrics (run_core zero_ticks_platform one_worker_benchmark) = Some [Infinity False]"
proof -
  have n: "num_worker_threads one_worker_benchmark \<noteq> 0"
    and l: "unat (iterations one_worker_benchmark) \<le> length (metricOnIter one_worker_benchmark)"
    and i: "unat (iterations one_worker_benchmark) = 1"
    and m: "length (metricOnIter one_worker_benchmark) = 1"
    by (simp_all add: ex_eval)
  show ?thesis
    by (simp add: run_core_success [OF zero_ticks_kernel n l] stored_metrics_def final_def i m
        zero_ticks_metric)
qed

text \<open>
  C2, as the specification states it, fails: the division of line 193 is not guarded.
  One worker that completes one pass of 64 bytes and reports zero adjusted ticks makes
  \<open>_run_core\<close> return true with the metric \<open>+infinity\<close> stored.
\<close>

theorem zero_ticks_metric_not_finite:
  "returned (run_core zero_ticks_platform one_worker_benchmark) = Some True
   \<and> sum_passes (iteration_counters zero_ticks_platform one_worker_benchmark (1, 2) 0) = 1
   \<and> stored_metrics (run_core zero_ticks_platform one_worker_benchmark) = Some [Infinity False]
   \<and> \<not> is_finite (Infinity False)"
proof -
  have n: "num_worker_threads one_worker_benchmark \<noteq> 0"
    and l: "unat (iterations one_worker_benchmark) \<le> length (metricOnIter one_worker_benchmark)"
    by (simp_all add: ex_eval)
  have "returned (run_core zero_ticks_platform one_worker_benchmark) = Some True"
    by (simp add: run_core_success [OF zero_ticks_kernel n l] returned_def)
  moreover have "sum_passes (iteration_counters zero_ticks_platform one_worker_benchmark (1, 2) 0) = 1"
    by (simp add: iteration_counters_def iteration_workers_def sum_passes_def ex_eval)
  ultimately show ?thesis by (simp add: zero_ticks_run is_finite_def)
qed


lemma stored_metric_nth:
  assumes "run_core p b = (evs, Some (True, b'))"
    and "determineSequentialKernel p (rw_mode b) (chunk_size b) (stride_size b) = Some k"
    and "i < unat (iterations b)"
  shows "metricOnIter b' ! i = iteration_metric p b k i"
proof -
  from assms(3) have "metricOnIter b' ! i = take (unat (iterations b)) (metricOnIter b') ! i"
    by simp
  also have "\<dots> = iteration_metric p b k i"
    using assms(3) by (simp only: stored_metrics_success [OF assms(1,2)]) simp
  finally show ?thesis .
qed

lemma iteration_metric_compute:
  "\<exists>tp bpp avg. iteration_metric p b k i = compute_metric tp bpp avg (get_ns_per_tick p)
     \<and> unat avg = avg_adjusted_ticks b (iteration_counters p b k i)"
proof -
  let ?cs = "iteration_counters p b k i"
  let ?avg = "sum_list (map getAdjustedTicks ?cs) div ucast (num_worker_threads b)"
  have "iteration_metric p b k i =
      compute_metric (sum_list (map getPasses ?cs)) (getBytesPerPass (?cs ! 0)) ?avg (get_ns_per_tick p)"
    by (simp add: iteration_metric_def compute_metric_spec unat_avg unat_sum_list
        sum_passes_def sum_adjusted_ticks_def avg_adjusted_ticks_def Let_def)
  moreover have "unat ?avg = avg_adjusted_ticks b ?cs"
    by (simp add: unat_avg unat_sum_list sum_adjusted_ticks_def avg_adjusted_ticks_def)
  ultimately show ?thesis by blast
qed

text \<open>
  C2, amended. In a run that returns true, the metric of an iteration is finite and not
  negative whenever the average of the adjusted ticks is not zero and the timer's factor
  is a positive number between \<open>2 ^ -500\<close> and \<open>2 ^ 500\<close> ns per tick; when the
  average of the adjusted ticks is zero, the stored metric is never finite.
\<close>

theorem metric_finite_nonneg:
  assumes "run_core p b = (evs, Some (True, b'))"
    and "determineSequentialKernel p (rw_mode b) (chunk_size b) (stride_size b) = Some k"
    and "i < unat (iterations b)"
  shows "(avg_adjusted_ticks b (iteration_counters p b k i) \<noteq> 0 \<and>
          get_ns_per_tick p = Finite False ns \<and> 1 / 2 ^ 500 \<le> ns \<and> ns \<le> 2 ^ 500 \<longrightarrow>
            is_finite (metricOnIter b' ! i) \<and> is_nonneg (metricOnIter b' ! i))
       \<and> (avg_adjusted_ticks b (iteration_counters p b k i) = 0 \<longrightarrow>
            \<not> is_finite (metricOnIter b' ! i))"
proof -
  obtain tp bpp avg
    where m: "iteration_metric p b k i = compute_metric tp bpp avg (get_ns_per_tick p)"
      and a: "unat avg = avg_adjusted_ticks b (iteration_counters p b k i)"
    using iteration_metric_compute by blast
  have s: "metricOnIter b' ! i = compute_metric tp bpp avg (get_ns_per_tick p)"
    using stored_metric_nth [OF assms] m by simp
  have "is_finite (metricOnIter b' ! i) \<and> is_nonneg (metricOnIter b' ! i)"
    if "avg_adjusted_ticks b (iteration_counters p b k i) \<noteq> 0"
      and "get_ns_per_tick p = Finite False ns" and "1 / 2 ^ 500 \<le> ns" and "ns \<le> 2 ^ 500"
  proof -
    from that(1) a have "avg \<noteq> 0" by (auto simp: unat_eq_0)
    from compute_metric_finite [OF this that(3,4)] obtain r
      where "compute_metric tp bpp avg (Finite False ns) = Finite False r" and "0 \<le> r" by blast
    with s that(2) show ?thesis by (simp add: is_finite_def is_nonneg_def signed_value_def)
  qed
  moreover have "\<not> is_finite (metricOnIter b' ! i)"
    if "avg_adjusted_ticks b (iteration_counters p b k i) = 0"
  proof -
    from that a have "avg = 0" by (simp add: unat_eq_0)
    with s show ?thesis by (simp add: compute_metric_zero_ticks)
  qed
  ultimately show ?thesis by blast
qed

theorem metric_finite_nonneg_example:
  "(\<exists>b'. final (run_core example_platform example_benchmark) = Some b'
      \<and> is_finite (metricOnIter b' ! 0) \<and> is_nonneg (metricOnIter b' ! 0))
   \<and> (\<exists>b'. final (run_core zero_ticks_platform one_worker_benchmark) = Some b'
      \<and> \<not> is_finite (metricOnIter b' ! 0))"
proof -
  from example_run obtain evs b'
    where r: "run_core example_platform example_benchmark = (evs, Some (True, b'))" by blast
  have i: "0 < unat (iterations example_benchmark)" by (simp add: ex_eval)
  have avg: "avg_adjusted_ticks example_benchmark
      (iteration_counters example_platform example_benchmark (1, 2) 0) \<noteq> 0"
    by (simp add: example_counters_eval avg_adjusted_ticks_def sum_adjusted_ticks_def)
      (simp add: ex_eval)
  have ns: "get_ns_per_tick example_platform = Finite False 1" by (simp add: ex_eval)
  have lo: "1 / 2 ^ 500 \<le> (1::real)" and hi: "(1::real) \<le> 2 ^ 500" by simp_all
  from metric_finite_nonneg [OF r example_kernel i, of 1] avg ns lo hi
  have "is_finite (metricOnIter b' ! 0) \<and> is_nonneg (metricOnIter b' ! 0)" by blast
  with r have a: "\<exists>b'. final (run_core example_platform example_benchmark) = Some b'
      \<and> is_finite (metricOnIter b' ! 0) \<and> is_nonneg (metricOnIter b' ! 0)"
    by (simp add: final_def)
  have n: "num_worker_threads one_worker_benchmark \<noteq> 0"
    and l: "unat (iterations one_worker_benchmark) \<le> length (metricOnIter one_worker_benchmark)"
    and i': "0 < unat (iterations one_worker_benchmark)"
    by (simp_all add: ex_eval)
  from run_core_success [OF zero_ticks_kernel n l] obtain evs0 b0
    where r0: "run_core zero_ticks_platform one_worker_benchmark = (evs0, Some (True, b0))" by blast
  have avg0: "avg_adjusted_ticks one_worker_benchmark
      (iteration_counters zero_ticks_platform one_worker_benchmark (1, 2) 0) = 0"
    by (simp add: zero_ticks_counters avg_adjusted_ticks_def sum_adjusted_ticks_def)
  from metric_finite_nonneg [OF r0 zero_ticks_kernel i', of 1] avg0
  have "\<not> is_finite (metricOnIter b0 ! 0)" by blast
  with r0 have "\<exists>b'. final (run_core zero_ticks_platform one_worker_benchmark) = Some b'
      \<and> \<not> is_finite (metricOnIter b' ! 0)"
    by (simp add: final_def)
  with a show ?thesis by simp
qed

subsection \<open>A buffer shorter than the worker count\<close>

lemma returned_run_core:
  "returned (run_core p b) =
     (case determineSequentialKernel p (rw_mode b) (chunk_size b) (stride_size b) of
        None \<Rightarrow> Some False
      | Some k \<Rightarrow>
          if num_worker_threads b \<noteq> 0 \<and> unat (iterations b) \<le> length (metricOnIter b)
          then Some True else None)"
proof (cases "determineSequentialKernel p (rw_mode b) (chunk_size b) (stride_size b)")
  case None
  then show ?thesis by (simp add: run_core_no_kernel returned_def)
next
  case (Some k)
  show ?thesis
  proof (cases "num_worker_threads b \<noteq> 0 \<and> unat (iterations b) \<le> length (metricOnIter b)")
    case True
    with Some run_core_success [OF Some] show ?thesis by (simp add: returned_def)
  next
    case False
    with Some run_core_undefined [OF Some] show ?thesis by (auto simp: returned_def)
  qed
qed

lemma workers_of_run_core_any:
  assumes "w \<in> set (workers_of i (fst (run_core p b)))"
  shows "thread_len w = len_per_thread b \<and> num_worker_threads b \<noteq> 0"
proof (cases "determineSequentialKernel p (rw_mode b) (chunk_size b) (stride_size b)")
  case None
  with assms show ?thesis by (simp add: run_core_no_kernel)
next
  case (Some k)
  show ?thesis
  proof (cases "num_worker_threads b = 0")
    case True
    with Some assms show ?thesis by (simp add: run_core_def workers_of_power)
  next
    case False
    from run_core_trace [OF Some False] obtain m partial post
      where t: "fst (run_core p b) =
        [Cout (Banner (name b)), ReportBenchmarkInfo] @ start_power p
         @ (if g_verbose p then [Cout RunningBenchmark] else [])
         @ concat (map (complete_iteration p b k) [0..<m]) @ partial @ post"
        and partial: "partial = [] \<or> partial = fst (measure_iteration p k (len_per_thread b) m b)"
        and post: "post = [] \<or> post = stop_power p"
      by blast
    have "workers_of i post = []" using post by (auto simp: workers_of_power)
    moreover have "set (workers_of i partial) \<subseteq> set (iteration_workers p b k)"
      using partial by (auto simp: workers_of_measure iteration_workers_def)
    ultimately have "w \<in> set (iteration_workers p b k)"
      using assms unfolding t
      by (auto simp: workers_of_append workers_of_power workers_of_iterations split: if_splits)
    then have "thread_len w = len_per_thread b"
      by (auto simp: iteration_workers_def new_worker_def)
    with False show ?thesis by simp
  qed
qed

lemma short_buffer_kernel:
  "determineSequentialKernel example_platform (rw_mode short_buffer_benchmark)
     (chunk_size short_buffer_benchmark) (stride_size short_buffer_benchmark) = Some (1, 2)"
  by (simp add: ex_eval)

lemma short_buffer_run:
  "\<exists>evs b'. run_core example_platform short_buffer_benchmark = (evs, Some (True, b'))"
  using run_core_success [OF short_buffer_kernel] by (simp add: ex_eval)

lemma short_buffer_lens:
  "map thread_len (iteration_workers example_platform short_buffer_benchmark k) = [0, 0, 0, 0]"
  by (simp add: iteration_workers_def len_per_thread_def new_worker_def ex_eval upt_rec comp_def)

lemma short_buffer_workers:
  "returned (run_core example_platform short_buffer_benchmark) = Some True
   \<and> map thread_len (workers_of 0 (fst (run_core example_platform short_buffer_benchmark)))
       = [0, 0, 0, 0]"
proof -
  from short_buffer_run obtain evs b'
    where r: "run_core example_platform short_buffer_benchmark = (evs, Some (True, b'))" by blast
  have "0 < unat (iterations short_buffer_benchmark)" by (simp add: ex_eval)
  with workers_of_run_core [OF r short_buffer_kernel, of 0] r
  have "map thread_len (workers_of 0 (fst (run_core example_platform short_buffer_benchmark)))
       = [0, 0, 0, 0]"
    by (simp add: short_buffer_lens)
  then show ?thesis using r by (simp add: returned_def)
qed

text \<open>
  C4, as the specification states it, fails: \<open>_run_core\<close> does not compare the buffer
  length with the worker count. With a buffer of 3 bytes and 4 workers it returns true,
  having made four workers with slices of length 0.
\<close>

theorem short_buffer_runs:
  "returned (run_core example_platform short_buffer_benchmark) = Some True
   \<and> unat (len short_buffer_benchmark) = 3
   \<and> unat (num_worker_threads short_buffer_benchmark) = 4
   \<and> map thread_len (workers_of 0 (fst (run_core example_platform short_buffer_benchmark)))
       = [0, 0, 0, 0]"
  using short_buffer_workers by (simp add: ex_eval)

text \<open>
  C4, amended. The flag \<open>_run_core\<close> returns does not depend on the buffer length, and
  every worker it makes has a slice of length \<open>len / num_workers\<close> (integer division),
  which is non-empty exactly when \<open>len \<ge> num_workers\<close>.
\<close>

theorem slice_length_unchecked:
  "returned (run_core p (b\<lparr>len := x\<rparr>)) = returned (run_core p b)
   \<and> (\<forall>w \<in> set (workers_of i (fst (run_core p b))).
        unat (thread_len w) = unat (len b) div unat (num_worker_threads b)
        \<and> (thread_len w \<noteq> 0 \<longleftrightarrow> unat (num_worker_threads b) \<le> unat (len b)))"
proof -
  have "unat (thread_len w) = unat (len b) div unat (num_worker_threads b)
        \<and> (thread_len w \<noteq> 0 \<longleftrightarrow> unat (num_worker_threads b) \<le> unat (len b))"
    if "w \<in> set (workers_of i (fst (run_core p b)))" for w
  proof -
    from workers_of_run_core_any [OF that]
    have l: "thread_len w = len_per_thread b" and n: "num_worker_threads b \<noteq> 0" by simp_all
    from n have "0 < unat (num_worker_threads b)" by (simp add: unat_gt_0)
    then have "0 < unat (len b) div unat (num_worker_threads b)
        \<longleftrightarrow> unat (num_worker_threads b) \<le> unat (len b)"
      by (simp add: div_greater_zero_iff)
    then show ?thesis
      by (simp add: l unat_len_per_thread unat_gt_0 [symmetric])
  qed
  then show ?thesis by (simp add: returned_run_core)
qed

text \<open>The short buffer against the example's: the same flag, and four slices of length 0.\<close>

theorem slice_length_unchecked_example:
  "returned (run_core example_platform (example_benchmark\<lparr>len := 3\<rparr>))
     = returned (run_core example_platform example_benchmark)
   \<and> map thread_len (workers_of 0 (fst (run_core example_platform short_buffer_benchmark)))
       = [0, 0, 0, 0]
   \<and> list_all (\<lambda>w. unat (thread_len w) = 3 div 4)
        (workers_of 0 (fst (run_core example_platform short_buffer_benchmark)))"
proof -
  have "unat (len short_buffer_benchmark) = 3"
    "unat (num_worker_threads short_buffer_benchmark) = 4" by (simp_all add: ex_eval)
  with slice_length_unchecked [where p = example_platform and b = short_buffer_benchmark and i = 0]
    slice_length_unchecked [where p = example_platform and b = example_benchmark and x = 3]
  show ?thesis using short_buffer_workers by (simp add: list_all_iff)
qed

subsection \<open>The slices of the workers\<close>

text \<open>
  C5. In a run that returns true, the workers made for an iteration are \<open>num_workers\<close>
  many (at least one); worker \<open>t\<close> is given the slice that starts \<open>t * (len / num_workers)\<close>
  bytes into the buffer and is \<open>len / num_workers\<close> bytes long (integer division); the
  slices of two different workers are disjoint, and together the slices are the first
  \<open>num_workers * (len / num_workers)\<close> bytes of the buffer, which leaves out the remainder.
\<close>

theorem worker_slices:
  assumes "run_core p b = (evs, Some (True, b'))"
    and "i < unat (iterations b)"
    and "ws = workers_of i evs"
    and "n = unat (num_worker_threads b)"
    and "q = unat (len b) div n"
  shows "1 \<le> n \<and> length ws = n
    \<and> (\<forall>t<n. unat (thread_mem_array (ws ! t) - mem_array b) = t * q
              \<and> unat (thread_len (ws ! t)) = q
              \<and> worker_slice b (ws ! t) = {t * q ..< t * q + q})
    \<and> (\<forall>t<n. \<forall>t'<n. t \<noteq> t' \<longrightarrow> worker_slice b (ws ! t) \<inter> worker_slice b (ws ! t') = {})
    \<and> (\<Union>t<n. worker_slice b (ws ! t)) = {0 ..< n * q}
    \<and> n * q \<le> unat (len b)"
proof -
  from assms(1) have "snd (run_core p b) = Some (True, b')" by simp
  from run_core_True [OF this] obtain k
    where k: "determineSequentialKernel p (rw_mode b) (chunk_size b) (stride_size b) = Some k"
      and n0: "num_worker_threads b \<noteq> 0"
    by blast
  from workers_of_run_core [OF assms(1) k, of i] assms(2,3)
  have ws: "ws = iteration_workers p b k" by simp
  have len: "length ws = n" by (simp add: ws iteration_workers_def assms(4))
  have nth: "ws ! t = new_worker p b k (len_per_thread b) t" if "t < n" for t
    using that by (simp add: ws iteration_workers_def assms(4))
  have sl: "worker_slice b (ws ! t) = {t * q ..< t * q + q}" if "t < n" for t
    using that worker_slice_new [of t b p k] by (simp add: nth assms(4,5))
  have off: "unat (thread_mem_array (ws ! t) - mem_array b) = t * q" if "t < n" for t
    using that worker_offset [of t b p k] by (simp add: nth assms(4,5))
  have tl: "unat (thread_len (ws ! t)) = q" if "t < n" for t
    using that by (simp add: nth new_worker_def unat_len_per_thread assms(4,5))
  have dis: "worker_slice b (ws ! t) \<inter> worker_slice b (ws ! t') = {}" if "t < n" "t' < n" "t \<noteq> t'" for t t'
  proof -
    have "worker_slice b (ws ! t) \<inter> worker_slice b (ws ! t')
        = {t * q ..< t * q + q} \<inter> {t' * q ..< t' * q + q}"
      by (simp only: sl [OF that(1)] sl [OF that(2)])
    also have "\<dots> = {}" by (rule slices_disjoint [OF that(3)])
    finally show ?thesis .
  qed
  have "(\<Union>t<n. worker_slice b (ws ! t)) = (\<Union>t<n. {t * q ..< t * q + q})"
    using sl by simp
  then have un: "(\<Union>t<n. worker_slice b (ws ! t)) = {0 ..< n * q}" by (simp only: slices_union)
  have "1 \<le> n" using n0 by (simp add: assms(4) unat_gt_0 Suc_le_eq)
  moreover have "n * q \<le> unat (len b)" by (simp add: assms(5))
  ultimately show ?thesis using len off tl sl dis un by blast
qed

text \<open>The example's second iteration: four slices of 262,144 bytes.\<close>

theorem worker_slices_example:
  "\<exists>evs b'. run_core example_platform example_benchmark = (evs, Some (True, b'))
     \<and> worker_slice example_benchmark (workers_of 1 evs ! 2) = {524288 ..< 786432}
     \<and> worker_slice example_benchmark (workers_of 1 evs ! 2) \<inter> worker_slice example_benchmark (workers_of 1 evs ! 3) = {}
     \<and> (\<Union>t<4. worker_slice example_benchmark (workers_of 1 evs ! t)) = {0 ..< 1048576}"
proof -
  from example_run obtain evs b'
    where r: "run_core example_platform example_benchmark = (evs, Some (True, b'))" by blast
  have i: "1 < unat (iterations example_benchmark)" by (simp add: ex_eval)
  have n: "4 = unat (num_worker_threads example_benchmark)" by (simp add: ex_eval)
  have q: "262144 = unat (len example_benchmark) div 4" by (simp add: ex_eval)
  note w = worker_slices [OF r i refl n q]
  note w3 = w [THEN conjunct2, THEN conjunct2, THEN conjunct1, rule_format, of 2]
  note w4 = w [THEN conjunct2, THEN conjunct2, THEN conjunct2, THEN conjunct1, rule_format, of 2 3]
  note w5 = w [THEN conjunct2, THEN conjunct2, THEN conjunct2, THEN conjunct2, THEN conjunct1]
  from w3 have a: "worker_slice example_benchmark (workers_of 1 evs ! 2) = {524288 ..< 786432}"
    by simp
  from w4 have b: "worker_slice example_benchmark (workers_of 1 evs ! 2)
        \<inter> worker_slice example_benchmark (workers_of 1 evs ! 3) = {}" by simp
  from w5 have c: "(\<Union>t<4. worker_slice example_benchmark (workers_of 1 evs ! t)) = {0 ..< 1048576}"
    by simp
  from r a b c show ?thesis by blast
qed

subsection \<open>The order of construction, start, join and reading\<close>

lemma permitted_mono: "permitted n e S \<Longrightarrow> S \<subseteq> S' \<Longrightarrow> permitted n e S'"
  by (cases e) fastforce+

lemma in_order_mono: "in_order n S es \<Longrightarrow> S \<subseteq> S' \<Longrightarrow> in_order n S' es"
proof (induction es arbitrary: S S')
  case Nil
  show ?case by simp
next
  case (Cons e es)
  from Cons.prems have "permitted n e S'" by (auto intro: permitted_mono)
  moreover from Cons.prems have "in_order n (insert e S') es"
    by (auto intro: Cons.IH [of "insert e S"])
  ultimately show ?case by simp
qed

lemma in_order_append:
  "in_order n S (xs @ ys) = (in_order n S xs \<and> in_order n (S \<union> set xs) ys)"
  by (induction xs arbitrary: S) (simp_all add: Un_commute insert_commute conj_assoc)

lemma in_order_all:
  assumes "\<forall>e\<in>set es. permitted n e S"
  shows "in_order n S es"
  using assms
proof (induction es arbitrary: S)
  case Nil
  show ?case by simp
next
  case (Cons e es)
  then have "\<forall>x\<in>set es. permitted n x (insert e S)"
    by (auto intro: permitted_mono)
  with Cons show ?case by simp
qed

lemma in_order_concat:
  assumes "\<And>x S. x \<in> set xs \<Longrightarrow> in_order n S (f x)"
  shows "in_order n S (concat (map f xs))"
  using assms by (induction xs arbitrary: S) (simp_all add: in_order_append)

lemma in_order_nth:
  "in_order n S es \<Longrightarrow> k < length es \<Longrightarrow> permitted n (es ! k) (S \<union> set (take k es))"
proof (induction es arbitrary: S k)
  case Nil
  then show ?case by simp
next
  case (Cons e es)
  show ?case
  proof (cases k)
    case 0
    with Cons.prems show ?thesis by simp
  next
    case (Suc j)
    with Cons.prems have "permitted n (es ! j) (insert e S \<union> set (take j es))"
      by (intro Cons.IH) simp_all
    with Suc show ?thesis by simp
  qed
qed

lemma created_events:
  assumes "t < m"
  shows "NewThread i t \<in> set (concat (map (create_worker p b k l i) [0..<m]))"
    and "NewWorker i t (new_worker p b k l t) \<in> set (concat (map (create_worker p b k l i) [0..<m]))"
    and "sint (cpu_id_in_numa_node p (cpu_node b) (of_nat t)) < 0 \<Longrightarrow>
      Cerr (NoLogicalCpu t (cpu_node b)) \<in> set (concat (map (create_worker p b k l i) [0..<m]))"
  using assms by (auto simp: create_worker_def Let_def intro!: bexI [of _ t])

lemma joined_events:
  assumes "t < m"
  shows "Join i t \<in> set (concat (map (join_thread p i) [0..<m]))"
  using assms by (auto simp: join_thread_def intro!: bexI [of _ t])

lemma in_order_measure:
  "in_order (unat (num_worker_threads b)) S (fst (measure_iteration p k l i b))"
proof -
  let ?n = "unat (num_worker_threads b)"
  let ?created = "concat (map (create_worker p b k l i) [0..<?n])"
  let ?started = "map (CreateAndStart i) [0..<?n]"
  let ?joined = "concat (map (join_thread p i) [0..<?n])"
  let ?reads = "GetBytesPerPass i 0 # map (GetCounters i) [0..<?n]"
  from measure_iteration_events [of p k l i b] obtain report
    where t: "fst (measure_iteration p k l i b) = ?created @ ?started @ ?joined @ ?reads @ report"
      and rep: "list_all is_output report"
    by auto
  have c: "in_order ?n S ?created" for S
    by (rule in_order_all) (auto simp: create_worker_def)
  have s: "in_order ?n (S \<union> set ?created) ?started" for S
  proof (rule in_order_all, rule ballI)
    fix e assume "e \<in> set ?started"
    then obtain t where e: "e = CreateAndStart i t" by auto
    have "\<forall>t'<?n. NewThread i t' \<in> S \<union> set ?created
        \<and> (\<exists>w. NewWorker i t' w \<in> S \<union> set ?created)"
      using created_events(1,2) [of _ ?n i p b k l] by blast
    then show "permitted ?n e (S \<union> set ?created)"
      unfolding e permitted.simps .
  qed
  have j: "in_order ?n S ?joined" for S
    by (rule in_order_all) (auto simp: join_thread_def)
  have r: "in_order ?n (S \<union> set ?joined) ?reads" for S
  proof (rule in_order_all, rule ballI)
    fix e assume "e \<in> set ?reads"
    then consider t where "e = GetBytesPerPass i t" | t where "e = GetCounters i t" by auto
    moreover have "\<forall>t'<?n. Join i t' \<in> S \<union> set ?joined"
      using joined_events [of _ ?n i p] by blast
    ultimately show "permitted ?n e (S \<union> set ?joined)"
      by cases (simp_all only: permitted.simps)
  qed
  have "permitted ?n e S" if "is_output e" for e S
    using that by (cases e) simp_all
  with rep have o: "in_order ?n S report" for S
    by (intro in_order_all) (auto simp: list_all_iff)
  have r': "in_order ?n (S \<union> set ?created \<union> set ?started \<union> set ?joined) ?reads"
    by (rule in_order_mono [OF r [of S]]) auto
  show ?thesis
    unfolding t in_order_append using c s j r' o by simp
qed

lemma in_order_cleanup: "in_order n S (cleanup b i)"
  by (rule in_order_all) (auto simp: cleanup_def)

lemma in_order_start_power: "in_order n S (start_power p)"
  by (rule in_order_all) (auto simp: start_power_def)

lemma in_order_stop_power: "in_order n S (stop_power p)"
  by (rule in_order_all) (auto simp: stop_power_def)

lemmas in_order_power = in_order_start_power in_order_stop_power

lemma in_order_complete:
  "in_order (unat (num_worker_threads b)) S (complete_iteration p b k i)"
  by (simp add: complete_iteration_def in_order_append in_order_measure in_order_cleanup)

lemma in_order_run_core:
  "in_order (unat (num_worker_threads b)) {} (fst (run_core p b))"
proof (cases "determineSequentialKernel p (rw_mode b) (chunk_size b) (stride_size b)")
  case None
  then show ?thesis by (simp add: run_core_no_kernel)
next
  case (Some k)
  show ?thesis
  proof (cases "num_worker_threads b = 0")
    case True
    with Some show ?thesis by (simp add: run_core_def in_order_append in_order_power)
  next
    case False
    from run_core_trace [OF Some False] obtain m partial post
      where t: "fst (run_core p b) =
        [Cout (Banner (name b)), ReportBenchmarkInfo] @ start_power p
         @ (if g_verbose p then [Cout RunningBenchmark] else [])
         @ concat (map (complete_iteration p b k) [0..<m]) @ partial @ post"
        and partial: "partial = [] \<or> partial = fst (measure_iteration p k (len_per_thread b) m b)"
        and post: "post = [] \<or> post = stop_power p"
      by blast
    have "in_order (unat (num_worker_threads b)) S partial" for S
      using partial by (auto simp: in_order_measure)
    moreover have "in_order (unat (num_worker_threads b)) S post" for S
      using post by (auto simp: in_order_power)
    moreover have "in_order (unat (num_worker_threads b)) S
        (concat (map (complete_iteration p b k) [0..<m]))" for S
      by (rule in_order_concat) (rule in_order_complete)
    ultimately show ?thesis
      unfolding t by (simp add: in_order_append in_order_power)
  qed
qed

lemma example_trace:
  "fst (run_core example_platform example_benchmark) ! 14 = CreateAndStart 0 0
   \<and> fst (run_core example_platform example_benchmark) ! 22 = GetBytesPerPass 0 0
   \<and> length (fst (run_core example_platform example_benchmark)) = 68"
proof -
  have n: "num_worker_threads example_benchmark \<noteq> 0"
    and l: "unat (iterations example_benchmark) \<le> length (metricOnIter example_benchmark)"
    by (simp_all add: ex_eval)
  have c: "complete_iteration example_platform example_benchmark k i =
     [NewWorker i 0 (new_worker example_platform example_benchmark k (len_per_thread example_benchmark) 0),
      NewThread i 0,
      NewWorker i 1 (new_worker example_platform example_benchmark k (len_per_thread example_benchmark) 1),
      NewThread i 1,
      Cerr (NoLogicalCpu 2 0),
      NewWorker i 2 (new_worker example_platform example_benchmark k (len_per_thread example_benchmark) 2),
      NewThread i 2,
      Cerr (NoLogicalCpu 3 0),
      NewWorker i 3 (new_worker example_platform example_benchmark k (len_per_thread example_benchmark) 3),
      NewThread i 3,
      CreateAndStart i 0, CreateAndStart i 1, CreateAndStart i 2, CreateAndStart i 3,
      Join i 0, Join i 1, Join i 2, Join i 3,
      GetBytesPerPass i 0,
      GetCounters i 0, GetCounters i 1, GetCounters i 2, GetCounters i 3,
      DeleteThread i 0, DeleteWorker i 0, DeleteThread i 1, DeleteWorker i 1,
      DeleteThread i 2, DeleteWorker i 2, DeleteThread i 3, DeleteWorker i 3]" for k i
  proof -
    have u: "unat (num_worker_threads example_benchmark) = 4"
      and v: "\<not> g_verbose example_platform"
      and j: "join example_platform = (\<lambda>i t. True)"
      and cn: "cpu_node example_benchmark = 0"
      and cpu: "cpu_id_in_numa_node example_platform = (\<lambda>node t. if t < 2 then t else - 1)"
      by (simp_all add: ex_eval)
    from measure_iteration_quiet [of example_platform k "len_per_thread example_benchmark" i
        example_benchmark] v
    have "fst (measure_iteration example_platform k (len_per_thread example_benchmark) i
          example_benchmark) =
      concat (map (create_worker example_platform example_benchmark k
          (len_per_thread example_benchmark) i) [0..<4])
      @ map (CreateAndStart i) [0..<4] @ concat (map (join_thread example_platform i) [0..<4])
      @ GetBytesPerPass i 0 # map (GetCounters i) [0..<4]"
      by (auto simp: u)
    then show ?thesis
      by (simp add: complete_iteration_def cleanup_def create_worker_def
          join_thread_def u j cn cpu upt_rec)
        (simp add: numeral_2_eq_2 numeral_3_eq_3)
  qed

  have p: "start_power example_platform = [StartPowerThreads, Cerr PowerStartFailed]"
    "stop_power example_platform = [StopPowerThreads, Cerr PowerStopFailed]"
    by (simp_all add: start_power_def stop_power_def ex_eval)
  have v: "\<not> g_verbose example_platform" by (simp add: ex_eval)
  show ?thesis
    by (simp add: run_core_success [OF example_kernel n l] example_iterations c p v upt_rec)
qed

text \<open>
  C7. In the trace of every run, with \<open>n\<close> the worker count: when a thread of iteration
  \<open>i\<close> is started, every one of the \<open>n\<close> workers and threads of iteration \<open>i\<close> has been
  constructed before; and when a counter of a worker of iteration \<open>i\<close> is read, every one
  of the \<open>n\<close> threads of iteration \<open>i\<close> has been joined before.
\<close>

theorem construct_start_join_read:
  assumes "evs = fst (run_core p b)"
    and "j < length evs"
    and "n = unat (num_worker_threads b)"
  shows "(evs ! j = CreateAndStart i t \<longrightarrow>
            (\<forall>t'<n. NewThread i t' \<in> set (take j evs) \<and> (\<exists>w. NewWorker i t' w \<in> set (take j evs))))
       \<and> (reads_counters i (evs ! j) \<longrightarrow> (\<forall>t'<n. Join i t' \<in> set (take j evs)))"
proof -
  from in_order_nth [OF in_order_run_core, of j p b] assms
  have p: "permitted n (evs ! j) (set (take j evs))" by simp
  have "\<forall>t'<n. Join i t' \<in> set (take j evs)" if "reads_counters i (evs ! j)"
    using that p by (cases "evs ! j") simp_all
  moreover have "\<forall>t'<n. NewThread i t' \<in> set (take j evs) \<and> (\<exists>w. NewWorker i t' w \<in> set (take j evs))"
    if "evs ! j = CreateAndStart i t"
    using that p by simp
  ultimately show ?thesis by blast
qed


text \<open>In the example's trace the first start is event 14 and the first read event 22.\<close>

theorem construct_start_join_read_example:
  "NewThread 0 3 \<in> set (take 14 (fst (run_core example_platform example_benchmark)))
   \<and> (\<exists>w. NewWorker 0 3 w \<in> set (take 14 (fst (run_core example_platform example_benchmark))))
   \<and> Join 0 3 \<in> set (take 22 (fst (run_core example_platform example_benchmark)))"
proof -
  let ?evs = "fst (run_core example_platform example_benchmark)"
  have n: "4 = unat (num_worker_threads example_benchmark)" by (simp add: ex_eval)
  have s: "14 < length ?evs" and r: "22 < length ?evs" using example_trace by simp_all
  from construct_start_join_read [OF refl s n, of 0 0] example_trace
  have "\<forall>t'<4. NewThread 0 t' \<in> set (take 14 ?evs) \<and> (\<exists>w. NewWorker 0 t' w \<in> set (take 14 ?evs))"
    by simp
  from this [rule_format, of 3]
  have a: "NewThread 0 3 \<in> set (take 14 ?evs) \<and> (\<exists>w. NewWorker 0 3 w \<in> set (take 14 ?evs))"
    by simp
  from construct_start_join_read [OF refl r n, of 0 0] example_trace
  have "\<forall>t'<4. Join 0 t' \<in> set (take 22 ?evs)" by simp
  from this [rule_format, of 3] have "Join 0 3 \<in> set (take 22 ?evs)" by simp
  with a show ?thesis by simp
qed

subsection \<open>The events of an iteration that runs to its end\<close>

lemma complete_iteration_events:
  assumes "t < unat (num_worker_threads b)"
  shows "NewWorker i t (new_worker p b k (len_per_thread b) t) \<in> set (complete_iteration p b k i)"
    and "NewThread i t \<in> set (complete_iteration p b k i)"
    and "CreateAndStart i t \<in> set (complete_iteration p b k i)"
    and "sint (cpu_id_in_numa_node p (cpu_node b) (of_nat t)) < 0 \<Longrightarrow>
      Cerr (NoLogicalCpu t (cpu_node b)) \<in> set (complete_iteration p b k i)"
proof -
  let ?n = "unat (num_worker_threads b)" and ?l = "len_per_thread b"
  from measure_iteration_events [of p k ?l i b] obtain report
    where t: "fst (measure_iteration p k ?l i b) =
        concat (map (create_worker p b k ?l i) [0..<?n]) @ map (CreateAndStart i) [0..<?n]
        @ concat (map (join_thread p i) [0..<?n])
        @ GetBytesPerPass i 0 # map (GetCounters i) [0..<?n] @ report"
    by blast
  have c: "set (concat (map (create_worker p b k ?l i) [0..<?n])) \<subseteq> set (complete_iteration p b k i)"
    unfolding complete_iteration_def t by auto
  from created_events(2) [OF assms] c
  show "NewWorker i t (new_worker p b k ?l t) \<in> set (complete_iteration p b k i)" by blast
  from created_events(1) [OF assms] c
  show "NewThread i t \<in> set (complete_iteration p b k i)" by blast
  from assms show "CreateAndStart i t \<in> set (complete_iteration p b k i)"
    unfolding complete_iteration_def t by simp
  assume "sint (cpu_id_in_numa_node p (cpu_node b) (of_nat t)) < 0"
  from created_events(3) [OF assms this] c
  show "Cerr (NoLogicalCpu t (cpu_node b)) \<in> set (complete_iteration p b k i)" by blast
qed

lemma complete_iteration_reads:
  assumes "t < unat (num_worker_threads b)"
  shows "Join i t \<in> set (complete_iteration p b k i)"
    and "GetCounters i t \<in> set (complete_iteration p b k i)"
    and "GetBytesPerPass i 0 \<in> set (complete_iteration p b k i)"
proof -
  let ?n = "unat (num_worker_threads b)" and ?l = "len_per_thread b"
  from measure_iteration_events [of p k ?l i b] obtain report
    where t: "fst (measure_iteration p k ?l i b) =
        concat (map (create_worker p b k ?l i) [0..<?n]) @ map (CreateAndStart i) [0..<?n]
        @ concat (map (join_thread p i) [0..<?n])
        @ GetBytesPerPass i 0 # map (GetCounters i) [0..<?n] @ report"
    by blast
  have j: "set (concat (map (join_thread p i) [0..<?n])) \<subseteq> set (complete_iteration p b k i)"
    unfolding complete_iteration_def t by auto
  from joined_events [OF assms] j
  show "Join i t \<in> set (complete_iteration p b k i)" by blast
  from assms show "GetCounters i t \<in> set (complete_iteration p b k i)"
    unfolding complete_iteration_def t by simp
  show "GetBytesPerPass i 0 \<in> set (complete_iteration p b k i)"
    unfolding complete_iteration_def t by simp
qed

subsection \<open>Failing power readers\<close>

lemma new_worker_power [simp]:
  "new_worker (p\<lparr>start_power_threads := s\<rparr>) b k l = new_worker p b k l"
  "new_worker (p\<lparr>stop_power_threads := s\<rparr>) b k l = new_worker p b k l"
  by (rule ext, simp add: new_worker_def)+

lemma create_worker_power [simp]:
  "create_worker (p\<lparr>start_power_threads := s\<rparr>) b k l i = create_worker p b k l i"
  "create_worker (p\<lparr>stop_power_threads := s\<rparr>) b k l i = create_worker p b k l i"
  by (rule ext, simp add: create_worker_def)+

lemma join_thread_power [simp]:
  "join_thread (p\<lparr>start_power_threads := s\<rparr>) i = join_thread p i"
  "join_thread (p\<lparr>stop_power_threads := s\<rparr>) i = join_thread p i"
  by (rule ext, simp add: join_thread_def)+

lemma measure_iteration_power [simp]:
  "measure_iteration (p\<lparr>start_power_threads := s\<rparr>) k l i b = measure_iteration p k l i b"
  "measure_iteration (p\<lparr>stop_power_threads := s\<rparr>) k l i b = measure_iteration p k l i b"
  by (simp_all add: measure_iteration_def Let_def case_prod_beta)

lemma run_iterations_power [simp]:
  "run_iterations (p\<lparr>start_power_threads := s\<rparr>) k l js b = run_iterations p k l js b"
  "run_iterations (p\<lparr>stop_power_threads := s\<rparr>) k l js b = run_iterations p k l js b"
  by (induction js arbitrary: b; simp add: run_iteration_def)+

lemma actions_start_power: "filter (\<lambda>e. \<not> is_output e) (start_power p) = [StartPowerThreads]"
  by (simp add: start_power_def)

lemma actions_stop_power: "filter (\<lambda>e. \<not> is_output e) (stop_power p) = [StopPowerThreads]"
  by (simp add: stop_power_def)

lemma run_core_power_result:
  "snd (run_core (p\<lparr>start_power_threads := s1, stop_power_threads := s2\<rparr>) b) = snd (run_core p b)"
  by (simp add: run_core_def Let_def split: option.splits prod.splits)

lemma run_core_power_actions:
  "filter (\<lambda>e. \<not> is_output e) (fst (run_core (p\<lparr>start_power_threads := s1, stop_power_threads := s2\<rparr>) b))
   = filter (\<lambda>e. \<not> is_output e) (fst (run_core p b))"
  by (simp add: run_core_def Let_def actions_start_power actions_stop_power
      split: option.splits prod.splits)

lemma start_power_warning: "\<not> start_power_threads p \<Longrightarrow> Cerr PowerStartFailed \<in> set (start_power p)"
  by (simp add: start_power_def)

lemma stop_power_warning: "\<not> stop_power_threads p \<Longrightarrow> Cerr PowerStopFailed \<in> set (stop_power p)"
  by (simp add: stop_power_def)

lemma iteration_metric_power:
  "iteration_metric (p\<lparr>start_power_threads := s1, stop_power_threads := s2\<rparr>) b k i
     = iteration_metric p b k i"
  by (simp add: iteration_metric_def iteration_counters_def iteration_workers_def)

lemma run_core_all_iterations:
  assumes "determineSequentialKernel p (rw_mode b) (chunk_size b) (stride_size b) = Some k"
    and "num_worker_threads b \<noteq> 0"
    and "unat (iterations b) \<le> length (metricOnIter b)"
    and "run_core p b = (evs, r)"
  shows "\<exists>b'. r = Some (True, b')
    \<and> (\<forall>i<unat (iterations b).
          metricOnIter b' ! i = iteration_metric p b k i
          \<and> GetBytesPerPass i 0 \<in> set evs
          \<and> (\<forall>t<unat (num_worker_threads b).
                NewWorker i t (new_worker p b k (len_per_thread b) t) \<in> set evs
                \<and> NewThread i t \<in> set evs
                \<and> CreateAndStart i t \<in> set evs
                \<and> Join i t \<in> set evs
                \<and> GetCounters i t \<in> set evs))
    \<and> averageMetric b' =
          ddiv (foldl dadd (averageMetric b) (map (iteration_metric p b k) [0..<unat (iterations b)]))
            (double_of_u32 (iterations b))
    \<and> hasRun b'"
proof -
  let ?it = "unat (iterations b)" and ?n = "unat (num_worker_threads b)"
  let ?b' = "b\<lparr>metricOnIter := map (iteration_metric p b k) [0..<?it] @ drop ?it (metricOnIter b),
         averageMetric := ddiv (foldl dadd (averageMetric b)
            (map (iteration_metric p b k) [0..<?it])) (double_of_u32 (iterations b)),
         hasRun := True\<rparr>"
  from run_core_success [OF assms(1,2,3)] assms(4)
  have evs: "evs = [Cout (Banner (name b)), ReportBenchmarkInfo] @ start_power p
       @ (if g_verbose p then [Cout RunningBenchmark] else [])
       @ concat (map (complete_iteration p b k) [0..<?it]) @ stop_power p"
    and r: "r = Some (True, ?b')"
    by simp_all
  have sub: "set (complete_iteration p b k i) \<subseteq> set evs" if "i < ?it" for i
    using that unfolding evs by auto
  have m: "metricOnIter ?b' ! i = iteration_metric p b k i" if "i < ?it" for i
    using that by (simp add: nth_append)
  have w: "NewWorker i t (new_worker p b k (len_per_thread b) t) \<in> set evs
                \<and> NewThread i t \<in> set evs
                \<and> CreateAndStart i t \<in> set evs
                \<and> Join i t \<in> set evs
                \<and> GetCounters i t \<in> set evs"
    if "i < ?it" "t < ?n" for i t
    using sub [OF that(1)] complete_iteration_events(1,2,3) [OF that(2), where i = i and p = p and k = k]
      complete_iteration_reads(1,2) [OF that(2), where i = i and p = p and k = k]
    by blast
  have g: "GetBytesPerPass i 0 \<in> set evs" if "i < ?it" for i
  proof -
    from assms(2) have "0 < ?n" by (simp add: unat_gt_0)
    from complete_iteration_reads(3) [OF this, where i = i and p = p and k = k] sub [OF that]
    show ?thesis by blast
  qed
  have a: "averageMetric ?b' =
          ddiv (foldl dadd (averageMetric b) (map (iteration_metric p b k) [0..<?it]))
            (double_of_u32 (iterations b))"
    and h: "hasRun ?b'"
    by simp_all
  show ?thesis
  proof (intro exI [of _ ?b'] conjI allI impI)
    show "r = Some (True, ?b')" by (rule r)
  qed (use m w g a h in blast)+
qed

text \<open>
  C8. Whatever \<open>_start_power_threads\<close> and \<open>_stop_power_threads\<close> return: the result of
  \<open>_run_core\<close> (the flag and the benchmark with its metrics) is the same, so is every
  iteration's metric, and so is everything it does apart from what it prints; a failed
  start is reported on \<open>std::cerr\<close> once the kernel is found, and a failed stop when the
  run returns true. And in a run with a kernel, at least one worker and room for every
  iteration's metric, whatever the power readers did, \<open>_run_core\<close> returns true, every
  iteration makes, starts, joins and reads every worker, every iteration's metric is
  stored at its index, the average is the accumulated sum divided by the iteration count,
  and the has-run flag is set.
\<close>

theorem power_failure_not_fatal:
  "snd (run_core (p\<lparr>start_power_threads := s1, stop_power_threads := s2\<rparr>) b) = snd (run_core p b)
   \<and> filter (\<lambda>e. \<not> is_output e)
         (fst (run_core (p\<lparr>start_power_threads := s1, stop_power_threads := s2\<rparr>) b))
       = filter (\<lambda>e. \<not> is_output e) (fst (run_core p b))
   \<and> iteration_metric (p\<lparr>start_power_threads := s1, stop_power_threads := s2\<rparr>) b k i
       = iteration_metric p b k i
   \<and> (determineSequentialKernel p (rw_mode b) (chunk_size b) (stride_size b) \<noteq> None
        \<and> \<not> start_power_threads p \<longrightarrow> Cerr PowerStartFailed \<in> set (fst (run_core p b)))
   \<and> (returned (run_core p b) = Some True \<and> \<not> stop_power_threads p
        \<longrightarrow> Cerr PowerStopFailed \<in> set (fst (run_core p b)))
   \<and> (determineSequentialKernel p (rw_mode b) (chunk_size b) (stride_size b) = Some k
        \<and> num_worker_threads b \<noteq> 0
        \<and> unat (iterations b) \<le> length (metricOnIter b)
        \<and> run_core p b = (evs, r)
        \<longrightarrow> (\<exists>b'. r = Some (True, b')
              \<and> (\<forall>i<unat (iterations b).
                    metricOnIter b' ! i = iteration_metric p b k i
                    \<and> GetBytesPerPass i 0 \<in> set evs
                    \<and> (\<forall>t<unat (num_worker_threads b).
                          NewWorker i t (new_worker p b k (len_per_thread b) t) \<in> set evs
                          \<and> NewThread i t \<in> set evs
                          \<and> CreateAndStart i t \<in> set evs
                          \<and> Join i t \<in> set evs
                          \<and> GetCounters i t \<in> set evs))
              \<and> averageMetric b' =
                    ddiv (foldl dadd (averageMetric b)
                            (map (iteration_metric p b k) [0..<unat (iterations b)]))
                      (double_of_u32 (iterations b))
              \<and> hasRun b'))"
proof -
  have "Cerr PowerStartFailed \<in> set (fst (run_core p b))"
    if "determineSequentialKernel p (rw_mode b) (chunk_size b) (stride_size b) \<noteq> None"
      and "\<not> start_power_threads p"
    using that start_power_warning [of p]
    by (auto simp: run_core_def Let_def split: option.splits prod.splits)
  moreover have "Cerr PowerStopFailed \<in> set (fst (run_core p b))"
    if "returned (run_core p b) = Some True" and "\<not> stop_power_threads p"
  proof -
    from that(1) obtain b' where "snd (run_core p b) = Some (True, b')"
      by (auto simp: returned_def)
    from run_core_True [OF this] obtain k
      where k: "determineSequentialKernel p (rw_mode b) (chunk_size b) (stride_size b) = Some k"
        and n: "num_worker_threads b \<noteq> 0" and l: "unat (iterations b) \<le> length (metricOnIter b)"
      by blast
    show ?thesis using stop_power_warning [OF that(2)]
      by (simp add: run_core_success [OF k n l])
  qed
  moreover note run_core_power_result [where p = p and ?s1.0 = s1 and ?s2.0 = s2 and b = b]
    run_core_power_actions [where p = p and ?s1.0 = s1 and ?s2.0 = s2 and b = b]
    iteration_metric_power [where p = p and ?s1.0 = s1 and ?s2.0 = s2 and b = b and k = k and i = i]
  moreover have "\<exists>b'. r = Some (True, b')
              \<and> (\<forall>i<unat (iterations b).
                    metricOnIter b' ! i = iteration_metric p b k i
                    \<and> GetBytesPerPass i 0 \<in> set evs
                    \<and> (\<forall>t<unat (num_worker_threads b).
                          NewWorker i t (new_worker p b k (len_per_thread b) t) \<in> set evs
                          \<and> NewThread i t \<in> set evs
                          \<and> CreateAndStart i t \<in> set evs
                          \<and> Join i t \<in> set evs
                          \<and> GetCounters i t \<in> set evs))
              \<and> averageMetric b' =
                    ddiv (foldl dadd (averageMetric b)
                            (map (iteration_metric p b k) [0..<unat (iterations b)]))
                      (double_of_u32 (iterations b))
              \<and> hasRun b'"
    if "determineSequentialKernel p (rw_mode b) (chunk_size b) (stride_size b) = Some k"
      and "num_worker_threads b \<noteq> 0"
      and "unat (iterations b) \<le> length (metricOnIter b)"
      and "run_core p b = (evs, r)"
    using that by (rule run_core_all_iterations)
  ultimately show ?thesis by (intro conjI impI) (assumption | elim conjE, blast)+
qed


text \<open>The example's power readers fail to start and to stop: both warnings are written,
  the run returns true, the second iteration starts, joins and reads its last worker and
  stores 24.4140625, and the result is the one of a run whose power readers work.\<close>

theorem power_failure_not_fatal_example:
  "start_power_threads example_platform = False
   \<and> stop_power_threads example_platform = False
   \<and> Cerr PowerStartFailed \<in> set (fst (run_core example_platform example_benchmark))
   \<and> Cerr PowerStopFailed \<in> set (fst (run_core example_platform example_benchmark))
   \<and> (\<exists>b'. snd (run_core example_platform example_benchmark) = Some (True, b')
         \<and> metricOnIter b' ! 1 = Finite False (3125 / 128) \<and> hasRun b')
   \<and> CreateAndStart 1 3 \<in> set (fst (run_core example_platform example_benchmark))
   \<and> Join 1 3 \<in> set (fst (run_core example_platform example_benchmark))
   \<and> GetCounters 1 3 \<in> set (fst (run_core example_platform example_benchmark))
   \<and> snd (run_core (example_platform\<lparr>start_power_threads := True, stop_power_threads := True\<rparr>)
        example_benchmark) = snd (run_core example_platform example_benchmark)"
proof -
  let ?r = "run_core example_platform example_benchmark"
  have s: "\<not> start_power_threads example_platform" "\<not> stop_power_threads example_platform"
    by (simp_all add: ex_eval)
  have k: "determineSequentialKernel example_platform (rw_mode example_benchmark)
     (chunk_size example_benchmark) (stride_size example_benchmark) \<noteq> None"
    by (simp add: example_kernel)
  have ret: "returned ?r = Some True"
    using example_run by (auto simp: returned_def)
  have n: "num_worker_threads example_benchmark \<noteq> 0"
    and l: "unat (iterations example_benchmark) \<le> length (metricOnIter example_benchmark)"
    and i: "1 < unat (iterations example_benchmark)"
    and t: "3 < unat (num_worker_threads example_benchmark)"
    by (simp_all add: ex_eval)
  have pc: "?r = (fst ?r, snd ?r)" by simp
  note c = power_failure_not_fatal [where p = example_platform and ?s1.0 = True and ?s2.0 = True
      and b = example_benchmark and k = "(1, 2)" and i = 1 and evs = "fst ?r" and r = "snd ?r"]
  note c1 = c [THEN conjunct1]
  note c4 = c [THEN conjunct2, THEN conjunct2, THEN conjunct2, THEN conjunct1, THEN mp,
      OF conjI [OF k s(1)]]
  note c5 = c [THEN conjunct2, THEN conjunct2, THEN conjunct2, THEN conjunct2, THEN conjunct1,
      THEN mp, OF conjI [OF ret s(2)]]
  note c6 = c [THEN conjunct2, THEN conjunct2, THEN conjunct2, THEN conjunct2, THEN conjunct2,
      THEN mp, OF conjI [OF example_kernel conjI [OF n conjI [OF l pc]]]]
  from c6 obtain b' where b': "snd ?r = Some (True, b')"
    and every: "\<forall>i<unat (iterations example_benchmark).
        metricOnIter b' ! i = iteration_metric example_platform example_benchmark (1, 2) i
        \<and> GetBytesPerPass i 0 \<in> set (fst ?r)
        \<and> (\<forall>t<unat (num_worker_threads example_benchmark).
              NewWorker i t (new_worker example_platform example_benchmark (1, 2)
                  (len_per_thread example_benchmark) t) \<in> set (fst ?r)
              \<and> NewThread i t \<in> set (fst ?r)
              \<and> CreateAndStart i t \<in> set (fst ?r)
              \<and> Join i t \<in> set (fst ?r)
              \<and> GetCounters i t \<in> set (fst ?r))"
    and h: "hasRun b'"
    by (elim exE conjE)
  note e1 = every [rule_format, OF i]
  from e1 [THEN conjunct1] have m: "metricOnIter b' ! 1 = Finite False (3125 / 128)"
    by (simp add: example_metric)
  note e3 = e1 [THEN conjunct2, THEN conjunct2, rule_format, OF t]
  from e3 have w: "CreateAndStart 1 3 \<in> set (fst ?r)" "Join 1 3 \<in> set (fst ?r)"
    "GetCounters 1 3 \<in> set (fst ?r)"
    by simp_all
  from b' m h have "\<exists>b'. snd ?r = Some (True, b')
         \<and> metricOnIter b' ! 1 = Finite False (3125 / 128) \<and> hasRun b'" by blast
  with s c1 c4 c5 w show ?thesis by simp
qed

subsection \<open>A worker without a logical CPU\<close>

text \<open>
  C9. In a run with a kernel, at least one worker and room for every iteration's metric,
  when the NUMA lookup for worker \<open>t\<close> returns a negative CPU id, \<open>_run_core\<close> writes the
  warning, makes worker \<open>t\<close> with that id and its thread in every iteration, starts the
  thread, and returns true.
\<close>

theorem missing_cpu_not_fatal:
  assumes "determineSequentialKernel p (rw_mode b) (chunk_size b) (stride_size b) = Some k"
    and "num_worker_threads b \<noteq> 0"
    and "unat (iterations b) \<le> length (metricOnIter b)"
    and "i < unat (iterations b)"
    and "t < unat (num_worker_threads b)"
    and "sint (cpu_id_in_numa_node p (cpu_node b) (of_nat t)) < 0"
    and "evs = fst (run_core p b)"
    and "w = new_worker p b k (len_per_thread b) t"
  shows "returned (run_core p b) = Some True
    \<and> Cerr (NoLogicalCpu t (cpu_node b)) \<in> set evs
    \<and> NewWorker i t w \<in> set evs
    \<and> cpu_affinity w = cpu_id_in_numa_node p (cpu_node b) (of_nat t)
    \<and> NewThread i t \<in> set evs
    \<and> CreateAndStart i t \<in> set evs"
proof -
  have "set (complete_iteration p b k i) \<subseteq> set evs"
    using assms(4) by (auto simp: assms(7) run_core_success [OF assms(1,2,3)])
  moreover have "returned (run_core p b) = Some True"
    by (simp add: run_core_success [OF assms(1,2,3)] returned_def)
  moreover have "cpu_affinity w = cpu_id_in_numa_node p (cpu_node b) (of_nat t)"
    by (simp add: assms(8) new_worker_def)
  ultimately show ?thesis
    using complete_iteration_events [OF assms(5), where i = i and p = p and k = k] assms(6)
    unfolding assms(8) by blast
qed

text \<open>The example's node has no logical CPU for worker 2.\<close>

theorem missing_cpu_not_fatal_example:
  "sint (cpu_id_in_numa_node example_platform (cpu_node example_benchmark) 2) = - 1
   \<and> returned (run_core example_platform example_benchmark) = Some True
   \<and> Cerr (NoLogicalCpu 2 0) \<in> set (fst (run_core example_platform example_benchmark))
   \<and> (\<exists>w. NewWorker 1 2 w \<in> set (fst (run_core example_platform example_benchmark))
          \<and> sint (cpu_affinity w) = - 1)
   \<and> CreateAndStart 1 2 \<in> set (fst (run_core example_platform example_benchmark))"
proof -
  have n: "num_worker_threads example_benchmark \<noteq> 0"
    and l: "unat (iterations example_benchmark) \<le> length (metricOnIter example_benchmark)"
    and i: "1 < unat (iterations example_benchmark)"
    and t: "2 < unat (num_worker_threads example_benchmark)"
    and c: "sint (cpu_id_in_numa_node example_platform (cpu_node example_benchmark) (of_nat 2)) < 0"
    and c': "sint (cpu_id_in_numa_node example_platform (cpu_node example_benchmark) 2) = - 1"
    and node: "cpu_node example_benchmark = 0"
    by (simp_all add: ex_eval)
  from missing_cpu_not_fatal [OF example_kernel n l i t c refl refl] c' node
  show ?thesis by auto
qed

end
